theory Spec2Isabelle
  imports Main "HOL-Library.Sublist"
begin

section \<open>JavaScript strings\<close>

text \<open>
  A JavaScript string is modelled as a \<^typ>\<open>string\<close>: a list of code units, restricted to
  the code units below 256 (the Latin-1 range). On that range the white space of
  \<^verbatim>\<open>String.prototype.trim\<close> and of the regular expression class \<^verbatim>\<open>\s\<close> is
  U+0009 to U+000D, U+0020 and U+00A0, and \<^verbatim>\<open>toLowerCase\<close> maps A-Z and the
  upper-case letters U+00C0 to U+00DE (without U+00D7) to the code unit 32 above.
\<close>

definition is_space :: "char \<Rightarrow> bool" where
  "is_space c = (c \<in> {CHR 0x09, CHR 0x0A, CHR 0x0B, CHR 0x0C, CHR 0x0D, CHR '' '', CHR 0xA0})"

definition trim :: "string \<Rightarrow> string" where
  "trim s = rev (dropWhile is_space (rev (dropWhile is_space s)))"

text \<open>\<^verbatim>\<open>s.includes(w)\<close>: \<open>w\<close> occurs in \<open>s\<close> as a contiguous block.\<close>

fun str_includes :: "string \<Rightarrow> string \<Rightarrow> bool" where
  "str_includes [] w = (w = [])"
| "str_includes (c # cs) w = (prefix w (c # cs) \<or> str_includes cs w)"

definition is_upper :: "char \<Rightarrow> bool" where
  "is_upper c = (let n = (of_char c :: nat) in
     (65 \<le> n \<and> n \<le> 90) \<or> (192 \<le> n \<and> n \<le> 222 \<and> n \<noteq> 215))"

definition lower_char :: "char \<Rightarrow> char" where
  "lower_char c = (if is_upper c
     then (case c of Char b0 b1 b2 b3 b4 b5 b6 b7 \<Rightarrow> Char b0 b1 b2 b3 b4 True b6 b7)
     else c)"

definition toLowerCase :: "string \<Rightarrow> string" where
  "toLowerCase = map lower_char"

definition newline :: string where
  "newline = [CHR 0x0A]"

section \<open>Module state of the server\<close>

text \<open>
  The module-level \<^verbatim>\<open>let\<close> variables of the server, one field each. Interval timers are
  kept in an explicit store: \<^verbatim>\<open>setInterval\<close> allocates a fresh handle and records the
  armed timer with its delay and callback, \<^verbatim>\<open>clearInterval\<close> removes it. What the
  server hands to the messaging transport or emits to the dashboard is appended to
  \<open>outbox\<close>. \<open>inflight\<close> holds the calls of \<^verbatim>\<open>sendNextQueuedFile\<close> that are suspended at
  their \<^verbatim>\<open>await\<close>: the path shifted off the queue, the caption computed at the call, and
  whether \<^verbatim>\<open>sendWhatsAppMedia\<close> found the client ready with a self-chat at the call.
\<close>

datatype role = User | Assistant

record conversation_entry =
  role :: role
  content :: string

record queue_status =
  active :: bool
  folder :: "string option"
  intervalMs :: nat
  totalFiles :: nat
  sentFiles :: nat
  sentList :: "string list"

datatype callback = QueueTick | TypingTick

text \<open>
  A file handed to the transport is named either by a path as written, or by a path in
  which the plain space before \<^verbatim>\<open>AM.\<close> or \<^verbatim>\<open>PM.\<close> stands for the narrow no-break
  space U+202F (a code unit outside the modelled range).
\<close>

datatype file_ref = AsWritten string | NarrowSpaced string

datatype caption = TextCaption string | QueueCaption nat nat string

datatype event =
    Reply string
  | QueueCompleteReply nat
  | Media file_ref caption
  | QueueProgress queue_status
  | TypingSignal

record server =
  isReady :: bool
  selfChatId :: "string option"
  currentAI :: string
  conversationHistory :: "conversation_entry list"
  fileQueue :: "string list"
  queueInterval :: "nat option"
  queueStatus :: queue_status
  typingInterval :: "nat option"
  timers :: "(nat \<times> nat \<times> callback) list"
  nextTimer :: nat
  inflight :: "(string \<times> caption \<times> bool) list"
  outbox :: "event list"

definition MAX_HISTORY :: nat where
  "MAX_HISTORY = 20"

definition initial :: server where
  "initial = \<lparr> isReady = False, selfChatId = None, currentAI = ''claude'',
     conversationHistory = [], fileQueue = [], queueInterval = None,
     queueStatus = \<lparr> active = False, folder = None, intervalMs = 60000, totalFiles = 0,
       sentFiles = 0, sentList = [] \<rparr>,
     typingInterval = None, timers = [], nextTimer = 0, inflight = [], outbox = [] \<rparr>"

text \<open>Node arms a delay below 1 or above 2147483647 milliseconds as 1 millisecond.\<close>

definition effective_delay :: "nat \<Rightarrow> nat" where
  "effective_delay period = (if period < 1 \<or> 2147483647 < period then 1 else period)"

definition setInterval :: "callback \<Rightarrow> nat \<Rightarrow> server \<Rightarrow> nat \<times> server" where
  "setInterval cb period s =
     (nextTimer s, s\<lparr> timers := timers s @ [(nextTimer s, effective_delay period, cb)],
                        nextTimer := Suc (nextTimer s) \<rparr>)"

definition clearInterval :: "nat \<Rightarrow> server \<Rightarrow> server" where
  "clearInterval h s = s\<lparr> timers := filter (\<lambda>t. fst t \<noteq> h) (timers s) \<rparr>"

section \<open>Sending to the transport\<close>

text \<open>
  \<^verbatim>\<open>sendWhatsAppReply\<close> and \<^verbatim>\<open>sendWhatsAppMedia\<close> do nothing unless the client is ready
  and the self-chat is known. The transport's answer for a media file is the parameter
  \<open>tr\<close>; an exception of the transport is caught inside and reported as \<open>False\<close>.
  \<open>sendWhatsAppMedia\<close> below is the send taken as one step, as the handler of an AI reply
  sees it, which awaits the send before it goes on; the file queue does not wait for its
  sends, and is modelled in two steps further down.
\<close>

definition connected :: "server \<Rightarrow> bool" where
  "connected s = (isReady s \<and> selfChatId s \<noteq> None)"

definition emit :: "event \<Rightarrow> server \<Rightarrow> server" where
  "emit e s = s\<lparr> outbox := outbox s @ [e] \<rparr>"

definition sendWhatsAppReply :: "event \<Rightarrow> server \<Rightarrow> server" where
  "sendWhatsAppReply e s = (if \<not> connected s then s else emit e s)"

definition sendWhatsAppMedia ::
  "(file_ref \<Rightarrow> bool) \<Rightarrow> file_ref \<Rightarrow> caption \<Rightarrow> server \<Rightarrow> bool \<times> server" where
  "sendWhatsAppMedia tr mediaPath cap s =
     (if \<not> connected s then (False, s)
      else if tr mediaPath then (True, emit (Media mediaPath cap) s)
      else (False, s))"

section \<open>AI invocation\<close>

text \<open>What a finished backend process hands back: the process-level error, if any, and the
  captured standard output and standard error.\<close>

record process_result =
  procError :: "string option"
  stdout :: string
  stderr :: string

definition systemInstructions :: string where
  "systemInstructions =
     ''IMPORTANT: When asked to share, attach, or send a file, you MUST output the FULL absolute file path on a separate line in this exact format:''
     @ newline @ ''[SEND_FILE:/full/path/to/file.ext]'' @ newline @ newline
     @ ''For example:'' @ newline
     @ ''[SEND_FILE:/Users/basim/Desktop/image.png]'' @ newline @ newline
     @ ''After outputting the file path, you can add a brief description. Do NOT just describe the file - you must include the [SEND_FILE:path] tag for the file to actually be sent.''
     @ newline @ newline"

definition roleLabel :: "conversation_entry \<Rightarrow> string" where
  "roleLabel msg = (if role msg = User then ''User'' else ''Assistant'')"

text \<open>The prompt built from the history that already holds the current user entry.\<close>

definition fullPrompt :: "conversation_entry list \<Rightarrow> string \<Rightarrow> string" where
  "fullPrompt history prompt =
     (if length history > 1
      then systemInstructions @ ''Previous conversation:'' @ newline
           @ concat (map (\<lambda>msg. roleLabel msg @ '': '' @ content msg @ newline) (butlast history))
           @ newline @ ''Current message:'' @ newline @ prompt
      else systemInstructions @ prompt)"

text \<open>\<^verbatim>\<open>conversationHistory.slice(-MAX_HISTORY)\<close> when the history is too long.\<close>

definition trimHistory :: "conversation_entry list \<Rightarrow> conversation_entry list" where
  "trimHistory history =
     (if length history > MAX_HISTORY then drop (length history - MAX_HISTORY) history
      else history)"

text \<open>
  The first match of \<^verbatim>\<open>/https:\/\/[^\s\]]+/\<close>: the leftmost position where
  \<^verbatim>\<open>https://\<close> is followed by at least one code unit that is neither white space nor
  \<^verbatim>\<open>]\<close>; the match takes all such code units that follow.
\<close>

definition url_char :: "char \<Rightarrow> bool" where
  "url_char c = (\<not> is_space c \<and> c \<noteq> CHR '']'')"

definition url_at :: "string \<Rightarrow> string option" where
  "url_at s =
     (if prefix ''https://'' s \<and> takeWhile url_char (drop 8 s) \<noteq> []
      then Some (''https://'' @ takeWhile url_char (drop 8 s)) else None)"

fun authUrl :: "string \<Rightarrow> string option" where
  "authUrl [] = None"
| "authUrl (c # cs) = (case url_at (c # cs) of Some u \<Rightarrow> Some u | None \<Rightarrow> authUrl cs)"

definition authMarker :: "string \<Rightarrow> bool" where
  "authMarker err = (str_includes err ''authorize'' \<or> str_includes err ''login'')"

text \<open>The callback of \<^verbatim>\<open>exec\<close> on the Claude path; an empty string is falsy.\<close>

definition claudeResponse :: "process_result \<Rightarrow> string" where
  "claudeResponse r =
     (if stdout r \<noteq> [] \<and> trim (stdout r) \<noteq> [] then trim (stdout r)
      else if stderr r \<noteq> [] \<and> authMarker (stderr r)
        then ''Please authorize Claude first: '' @
             (case authUrl (stderr r) of Some u \<Rightarrow> u | None \<Rightarrow> ''Check terminal for auth URL'')
      else if stderr r \<noteq> [] \<and> trim (stderr r) \<noteq> [] then ''Claude: '' @ trim (stderr r)
      else (case procError r of Some msg \<Rightarrow> ''Claude error: '' @ msg
            | None \<Rightarrow> ''No response from Claude''))"

text \<open>The \<^verbatim>\<open>close\<close> handler of the spawned process on the other path.\<close>

definition spawnResponse :: "string \<Rightarrow> process_result \<Rightarrow> string" where
  "spawnResponse provider r =
     (if trim (stdout r) \<noteq> [] then trim (stdout r)
      else if authMarker (stderr r)
        then ''Please authorize '' @ provider @ '' first: '' @
             (case authUrl (stderr r) of Some u \<Rightarrow> u | None \<Rightarrow> ''Check terminal for auth URL'')
      else if trim (stderr r) \<noteq> [] then provider @ '': '' @ trim (stderr r)
      else ''No response from '' @ provider)"

datatype ai_outcome = Resolved string | Rejected string

text \<open>
  \<^verbatim>\<open>sendToAI(prompt, provider)\<close>. The backend is a function from the prompt text given to
  the external program to what the finished process hands back. On the Claude path the user
  entry is pushed, the prompt is built, the history is cut to its last \<open>MAX_HISTORY\<close>
  entries, and the callback pushes the assistant entry. On the other path a spawn error
  rejects the promise and a closed process resolves it.
\<close>

definition sendToAI ::
  "(string \<Rightarrow> process_result) \<Rightarrow> string \<Rightarrow> string \<Rightarrow> server \<Rightarrow> ai_outcome \<times> server" where
  "sendToAI backend prompt provider s =
     (if provider = ''claude'' then
        (let pushed = conversationHistory s @ [\<lparr> role = User, content = prompt \<rparr>];
             response = claudeResponse (backend (fullPrompt pushed prompt))
         in (Resolved response,
             s\<lparr> conversationHistory :=
                  trimHistory pushed @ [\<lparr> role = Assistant, content = response \<rparr>] \<rparr>))
      else
        (case procError (backend prompt) of
           Some msg \<Rightarrow> (Rejected msg, s)
         | None \<Rightarrow> (Resolved (spawnResponse provider (backend prompt)), s)))"

text \<open>A sequence of completed rounds against the Claude backend, one per prompt.\<close>

definition claudeRounds :: "(string \<Rightarrow> process_result) \<Rightarrow> string list \<Rightarrow> server \<Rightarrow> server" where
  "claudeRounds backend prompts s =
     foldl (\<lambda>st p. snd (sendToAI backend p ''claude'' st)) s prompts"

section \<open>Paths\<close>

text \<open>
  \<^verbatim>\<open>path.join\<close> and \<^verbatim>\<open>path.basename\<close> of Node on a POSIX system. \<^verbatim>\<open>path.join\<close> puts a
  slash between its arguments that are not empty and normalises the result: empty segments
  and \<^verbatim>\<open>.\<close> are dropped, \<^verbatim>\<open>..\<close> takes back the segment before it (above the start of
  a relative path it stays, at the root it is dropped), a slash at the end is kept.
  \<^verbatim>\<open>path.basename\<close> skips the slashes at the end and gives what follows the last slash
  before them.
\<close>

fun split_path :: "string \<Rightarrow> string list" where
  "split_path [] = [[]]"
| "split_path (c # cs) =
     (if c = CHR ''/'' then [] # split_path cs
      else (case split_path cs of [] \<Rightarrow> [[c]] | seg # segs \<Rightarrow> (c # seg) # segs))"

definition norm_step :: "bool \<Rightarrow> string list \<Rightarrow> string \<Rightarrow> string list" where
  "norm_step allowAboveRoot res seg =
     (if seg = [] \<or> seg = ''.'' then res
      else if seg = ''..''
        then (if res \<noteq> [] \<and> last res \<noteq> ''..'' then butlast res
              else if allowAboveRoot then res @ [''..'']
              else res)
      else res @ [seg])"

fun join_slash :: "string list \<Rightarrow> string" where
  "join_slash [] = []"
| "join_slash [x] = x"
| "join_slash (x # y # ys) = x @ ''/'' @ join_slash (y # ys)"

definition normalize :: "string \<Rightarrow> string" where
  "normalize p =
     (if p = [] then ''.''
      else
        (let isAbsolute = (hd p = CHR ''/'');
             trailingSeparator = (last p = CHR ''/'');
             body = join_slash (foldl (norm_step (\<not> isAbsolute)) [] (split_path p))
         in if body = []
            then (if isAbsolute then ''/'' else if trailingSeparator then ''./'' else ''.'')
            else (if isAbsolute then ''/'' else []) @ body
                   @ (if trailingSeparator then ''/'' else [])))"

definition path_join :: "string \<Rightarrow> string \<Rightarrow> string" where
  "path_join dir f =
     (if dir = [] then (if f = [] then ''.'' else normalize f)
      else if f = [] then normalize dir
      else normalize (dir @ ''/'' @ f))"

definition basename :: "string \<Rightarrow> string" where
  "basename p =
     rev (takeWhile (\<lambda>c. c \<noteq> CHR ''/'')
            (dropWhile (\<lambda>c. c = CHR ''/'') (rev p)))"

section \<open>Scheduled file queue\<close>

definition stopFileQueue :: "server \<Rightarrow> server" where
  "stopFileQueue s =
     (let s1 = (case queueInterval s of
                  Some h \<Rightarrow> (clearInterval h s)\<lparr> queueInterval := None \<rparr>
                | None \<Rightarrow> s)
      in s1\<lparr> queueStatus := (queueStatus s1)\<lparr> active := False \<rparr>, fileQueue := [] \<rparr>)"

text \<open>
  \<^verbatim>\<open>sendNextQueuedFile\<close> is an \<^verbatim>\<open>async\<close> function that its callers do not await. It runs
  in two steps. The first, \<open>sendNextQueuedFile\<close>, runs with the call: on an empty queue the
  queue is stopped and the completion is reported; otherwise the head is shifted off, the
  caption is computed, \<^verbatim>\<open>sendWhatsAppMedia\<close> is called and the function is suspended at its
  \<^verbatim>\<open>await\<close>. The second, \<open>sendSettled\<close>, runs when the awaited send number \<open>i\<close> settles,
  \<open>ok\<close> being the transport's answer: on success it counts on the \<open>queueStatus\<close> and emits
  the progress, on failure it unshifts the path onto the \<open>fileQueue\<close>; both variables are
  read as they are at that moment. Any other step of the server can run between the two.
  (A send that found the client not ready settles as failed before any other step runs in
  the program; the model lets it settle at any later moment, which only adds runs.
  \<^verbatim>\<open>sendWhatsAppMedia\<close> catches every exception, so the \<^verbatim>\<open>catch\<close> branch is never
  entered.)
\<close>

definition sendNextQueuedFile :: "server \<Rightarrow> server" where
  "sendNextQueuedFile s =
     (case fileQueue s of
        [] \<Rightarrow>
          (let s1 = stopFileQueue s
           in sendWhatsAppReply (QueueCompleteReply (totalFiles (queueStatus s1))) s1)
      | filePath # rest \<Rightarrow>
          s\<lparr> fileQueue := rest,
             inflight := inflight s @
               [(filePath,
                 QueueCaption (sentFiles (queueStatus s) + 1) (totalFiles (queueStatus s))
                   (basename filePath),
                 connected s)] \<rparr>)"

definition sendSettled :: "nat \<Rightarrow> bool \<Rightarrow> server \<Rightarrow> server" where
  "sendSettled i ok s =
     (if i < length (inflight s) then
        (let (filePath, cap, handed) = inflight s ! i;
             s1 = s\<lparr> inflight := take i (inflight s) @ drop (Suc i) (inflight s) \<rparr>
         in if handed \<and> ok
            then (let s2 = emit (Media (AsWritten filePath) cap) s1;
                      st = (queueStatus s2)\<lparr> sentFiles := sentFiles (queueStatus s2) + 1,
                             sentList := sentList (queueStatus s2) @ [basename filePath] \<rparr>
                  in emit (QueueProgress st) (s2\<lparr> queueStatus := st \<rparr>))
            else s1\<lparr> fileQueue := filePath # fileQueue s1 \<rparr>)
      else s)"

text \<open>
  What \<^verbatim>\<open>fs.readdirSync\<close> and \<^verbatim>\<open>fs.statSync\<close> answer is an input: \<open>None\<close> when reading the
  folder throws, otherwise the entry names in the order of the listing, each with the
  answer of \<^verbatim>\<open>statSync(...).isFile()\<close>. \<open>startFileQueue\<close> returns after the first step of
  \<^verbatim>\<open>sendNextQueuedFile\<close> and the arming of the timer.
\<close>

datatype stat = IsFile | NotFile | StatThrows

datatype start_result = Queued nat nat | NoFilesFound | StartError

definition startFileQueue ::
  "(string \<times> stat) list option \<Rightarrow> string \<Rightarrow> nat \<Rightarrow> server \<Rightarrow> start_result \<times> server" where
  "startFileQueue listing folderPath period s =
     (let s0 = (case queueInterval s of Some h \<Rightarrow> clearInterval h s | None \<Rightarrow> s)
      in case listing of
           None \<Rightarrow> (StartError, s0)
         | Some entries \<Rightarrow>
             if list_ex (\<lambda>e. snd e = StatThrows) entries then (StartError, s0)
             else
               (let files = map (\<lambda>e. path_join folderPath (fst e))
                                (filter (\<lambda>e. snd e = IsFile) entries)
                in if files = [] then (NoFilesFound, s0)
                   else
                     (let s1 = s0\<lparr> fileQueue := files,
                                 queueStatus := \<lparr> active = True, folder = Some folderPath,
                                   intervalMs = period, totalFiles = length files,
                                   sentFiles = 0, sentList = [] \<rparr> \<rparr>;
                          s2 = sendNextQueuedFile s1;
                          (h, s3) = setInterval QueueTick period s2
                      in (Queued (length files) period, s3\<lparr> queueInterval := Some h \<rparr>))))"

text \<open>\<^verbatim>\<open>getQueueStatus\<close>: the status with \<open>remaining\<close> and \<open>remainingFiles\<close>.\<close>

definition getQueueStatus :: "server \<Rightarrow> queue_status \<times> nat \<times> string list" where
  "getQueueStatus s = (queueStatus s, length (fileQueue s), map basename (fileQueue s))"

section \<open>Typing indicator\<close>

text \<open>\<open>ok\<close>: the chat was found and took the typing state; otherwise the exception is
  caught and nothing is armed.\<close>

definition startTyping :: "bool \<Rightarrow> server \<Rightarrow> server" where
  "startTyping ok s =
     (if \<not> connected s then s
      else if ok
        then (let (h, s1) = setInterval TypingTick 5000 (emit TypingSignal s)
              in s1\<lparr> typingInterval := Some h \<rparr>)
      else s)"

definition stopTyping :: "server \<Rightarrow> server" where
  "stopTyping s =
     (case typingInterval s of
        Some h \<Rightarrow> (clearInterval h s)\<lparr> typingInterval := None \<rparr>
      | None \<Rightarrow> s)"

section \<open>Timer ticks and runs of the queue\<close>

text \<open>The timer with handle \<open>h\<close> fires: nothing happens unless it is armed; otherwise its
  callback runs (for the queue, the first step of \<^verbatim>\<open>sendNextQueuedFile\<close>).\<close>

definition fire :: "nat \<Rightarrow> bool \<Rightarrow> server \<Rightarrow> server" where
  "fire h ok s =
     (case find (\<lambda>t. fst t = h) (timers s) of
        None \<Rightarrow> s
      | Some t \<Rightarrow>
          (case snd (snd t) of
             QueueTick \<Rightarrow> sendNextQueuedFile s
           | TypingTick \<Rightarrow> (if ok then emit TypingSignal s else s)))"

definition queueTick :: "server \<Rightarrow> server" where
  "queueTick s = (case queueInterval s of Some h \<Rightarrow> fire h True s | None \<Rightarrow> s)"

text \<open>The send suspended last settles.\<close>

definition settleLast :: "bool \<Rightarrow> server \<Rightarrow> server" where
  "settleLast ok s = sendSettled (length (inflight s) - 1) ok s"

text \<open>
  The steps that touch the queue: a start, a tick of the queue's timer, the settling of a
  suspended send, a stop, and the changes of the connection. \<open>calm ops s\<close>: in the run of
  \<open>ops\<close> from \<open>s\<close>, no start is made while a send is suspended.
\<close>

datatype queue_op =
    Start "(string \<times> stat) list option" string nat
  | Tick
  | Settled nat bool
  | Stop
  | ClientReady "string option"
  | SelfChatSeen string
  | ClientDisconnected

fun apply_op :: "queue_op \<Rightarrow> server \<Rightarrow> server" where
  "apply_op (Start listing folderPath period) s =
     snd (startFileQueue listing folderPath period s)"
| "apply_op Tick s = queueTick s"
| "apply_op (Settled i ok) s = sendSettled i ok s"
| "apply_op Stop s = stopFileQueue s"
| "apply_op (ClientReady found) s =
     s\<lparr> isReady := True,
        selfChatId := (case found of Some chat \<Rightarrow> Some chat | None \<Rightarrow> selfChatId s) \<rparr>"
| "apply_op (SelfChatSeen chat) s =
     (if selfChatId s = None then s\<lparr> selfChatId := Some chat \<rparr> else s)"
| "apply_op ClientDisconnected s = s\<lparr> isReady := False \<rparr>"

definition run :: "queue_op list \<Rightarrow> server \<Rightarrow> server" where
  "run ops s = foldl (\<lambda>st op. apply_op op st) s ops"

fun is_start :: "queue_op \<Rightarrow> bool" where
  "is_start (Start listing folderPath period) = True"
| "is_start op = False"

fun calm :: "queue_op list \<Rightarrow> server \<Rightarrow> bool" where
  "calm [] s = True"
| "calm (op # ops) s = ((if is_start op then inflight s = [] else True) \<and> calm ops (apply_op op s))"

section \<open>The file directive in an AI reply\<close>

text \<open>
  \<^verbatim>\<open>/\[SEND_FILE:([^\]]+)\]/\<close> anchored at the head of \<open>s\<close>: after the opening text the
  greedy class takes every code unit up to the next \<^verbatim>\<open>]\<close>; the match succeeds when that
  run is not empty and a \<^verbatim>\<open>]\<close> follows it, and gives the run (group 1) and the rest
  after the \<^verbatim>\<open>]\<close>.
\<close>

definition tag_open :: string where
  "tag_open = ''[SEND_FILE:''"

definition directive_at :: "string \<Rightarrow> (string \<times> string) option" where
  "directive_at s =
     (if prefix tag_open s
      then (let body = drop (length tag_open) s;
                g = takeWhile (\<lambda>c. c \<noteq> CHR '']'') body;
                r = dropWhile (\<lambda>c. c \<noteq> CHR '']'') body
            in if g \<noteq> [] \<and> r \<noteq> [] then Some (g, tl r) else None)
      else None)"

text \<open>\<^verbatim>\<open>aiResponse.match(...)\<close>: group 1 of the leftmost match.\<close>

fun sendFileMatch :: "string \<Rightarrow> string option" where
  "sendFileMatch [] = None"
| "sendFileMatch (c # cs) =
     (case directive_at (c # cs) of Some m \<Rightarrow> Some (fst m) | None \<Rightarrow> sendFileMatch cs)"

text \<open>
  \<^verbatim>\<open>aiResponse.replace(/\s*\[SEND_FILE:[^\]]+\]\s*/g, ' ')\<close>: at each position the white
  space in front is skipped; if a directive follows, the white space, the directive and the
  white space after it become one blank and the scan goes on behind them; otherwise the
  code unit at the position is kept.
\<close>

function replaceTags :: "string \<Rightarrow> string" where
  "replaceTags s =
     (case directive_at (dropWhile is_space s) of
        Some m \<Rightarrow> CHR '' '' # replaceTags (dropWhile is_space (snd m))
      | None \<Rightarrow> (case s of [] \<Rightarrow> [] | c # cs \<Rightarrow> c # replaceTags cs))"
  by pat_completeness auto

lemma directive_at_shorter:
  assumes "directive_at s = Some m"
  shows "length (snd m) < length s"
proof -
  let ?body = "drop (length tag_open) s"
  from assms have r: "dropWhile (\<lambda>c. c \<noteq> CHR '']'') ?body \<noteq> []"
    and m: "snd m = tl (dropWhile (\<lambda>c. c \<noteq> CHR '']'') ?body)"
    by (auto simp: directive_at_def Let_def split: if_splits)
  have "length (dropWhile (\<lambda>c. c \<noteq> CHR '']'') ?body) \<le> length ?body"
    by (rule length_dropWhile_le)
  with r m show ?thesis by (cases "dropWhile (\<lambda>c. c \<noteq> CHR '']'') ?body") auto
qed

termination replaceTags
proof (relation "measure length")
  show "wf (measure length)" by simp
next
  fix s :: string and m
  assume "directive_at (dropWhile is_space s) = Some m"
  then have "length (snd m) < length (dropWhile is_space s)" by (rule directive_at_shorter)
  moreover have "length (dropWhile is_space (snd m)) \<le> length (snd m)"
    by (rule length_dropWhile_le)
  moreover have "length (dropWhile is_space s) \<le> length s" by (rule length_dropWhile_le)
  ultimately show "(dropWhile is_space (snd m), s) \<in> measure length" by simp
next
  fix s :: string and c cs
  assume "s = c # cs"
  then show "(cs, s) \<in> measure length" by simp
qed

declare replaceTags.simps [simp del]

section \<open>The path heuristic: a backtracking matcher\<close>

text \<open>
  The two patterns of the heuristic need backtracking (a lazy \<^verbatim>\<open>.*?\<close>, and a greedy
  class that has to give back code units to reach the extension). A pattern is a term of
  \<open>re\<close>; \<open>rests p s\<close> lists, in the priority order of a backtracking matcher, the rests of
  \<open>s\<close> after every way \<open>p\<close> matches at the head of \<open>s\<close>: for a greedy star the longer
  iterations first, for a lazy star the shorter first. An iteration has to consume input.
\<close>

datatype re = Eps | Sym "char \<Rightarrow> bool" | Cat re re | Alt re re | Star re | LazyStar re

fun rests :: "re \<Rightarrow> string \<Rightarrow> string list" where
  "rests Eps s = [s]"
| "rests (Sym P) s = (case s of [] \<Rightarrow> [] | c # cs \<Rightarrow> if P c then [cs] else [])"
| "rests (Cat a b) s = concat (map (rests b) (rests a s))"
| "rests (Alt a b) s = rests a s @ rests b s"
| "rests (Star a) s =
     concat (map (\<lambda>r. if length r < length s then rests (Star a) r else []) (rests a s)) @ [s]"
| "rests (LazyStar a) s =
     s # concat (map (\<lambda>r. if length r < length s then rests (LazyStar a) r else []) (rests a s))"

text \<open>Under the flag \<^verbatim>\<open>i\<close> an ASCII letter of the pattern matches its two cases only.\<close>

definition ascii_lower :: "char \<Rightarrow> char" where
  "ascii_lower c =
     (if 65 \<le> (of_char c :: nat) \<and> (of_char c :: nat) \<le> 90 then lower_char c else c)"

fun lit_ci :: "string \<Rightarrow> re" where
  "lit_ci [] = Eps"
| "lit_ci (c # cs) = Cat (Sym (\<lambda>x. ascii_lower x = ascii_lower c)) (lit_ci cs)"

definition plus :: "re \<Rightarrow> re" where
  "plus a = Cat a (Star a)"

text \<open>\<^verbatim>\<open>\w\<close>, the dot (every code unit but a line terminator) and the two classes.\<close>

definition word_char :: "char \<Rightarrow> bool" where
  "word_char c = (let n = (of_char c :: nat) in
     (48 \<le> n \<and> n \<le> 57) \<or> (65 \<le> n \<and> n \<le> 90) \<or> (97 \<le> n \<and> n \<le> 122) \<or> c = CHR ''_'')"

definition any_char :: "char \<Rightarrow> bool" where
  "any_char c = (c \<noteq> CHR 0x0A \<and> c \<noteq> CHR 0x0D)"

definition sep_char :: "char \<Rightarrow> bool" where
  "sep_char c = (c = CHR '':'' \<or> is_space c)"

definition path_char :: "char \<Rightarrow> bool" where
  "path_char c = (c = CHR ''/'' \<or> word_char c \<or> c = CHR ''-'' \<or> c = CHR ''.'' \<or> is_space c)"

text \<open>
  \<^verbatim>\<open>/(?:saved|screenshot|image|file).*?[:\s]+(\/[\/\w\-\.\s]+\.(?:png|jpg|jpeg|gif|webp))/i\<close>:
  the part in front of the group, and the group.
\<close>

definition legacy_front :: re where
  "legacy_front =
     Cat (Alt (lit_ci ''saved'') (Alt (lit_ci ''screenshot'') (Alt (lit_ci ''image'')
            (lit_ci ''file''))))
         (Cat (LazyStar (Sym any_char)) (plus (Sym sep_char)))"

definition legacy_group :: re where
  "legacy_group =
     Cat (Sym (\<lambda>c. c = CHR ''/''))
       (Cat (plus (Sym path_char))
          (Cat (Sym (\<lambda>c. c = CHR ''.''))
             (Alt (lit_ci ''png'') (Alt (lit_ci ''jpg'') (Alt (lit_ci ''jpeg'')
                (Alt (lit_ci ''gif'') (lit_ci ''webp'')))))))"

text \<open>
  \<^verbatim>\<open>/(\/Users\/[\/\w\-\.\s]+\.(?:png|jpg|jpeg|gif|webp|pdf|csv|txt|doc|docx))/i\<close>
\<close>

definition users_group :: re where
  "users_group =
     Cat (lit_ci ''/Users/'')
       (Cat (plus (Sym path_char))
          (Cat (Sym (\<lambda>c. c = CHR ''.''))
             (Alt (lit_ci ''png'') (Alt (lit_ci ''jpg'') (Alt (lit_ci ''jpeg'')
                (Alt (lit_ci ''gif'') (Alt (lit_ci ''webp'') (Alt (lit_ci ''pdf'')
                (Alt (lit_ci ''csv'') (Alt (lit_ci ''txt'') (Alt (lit_ci ''doc'')
                (lit_ci ''docx''))))))))))))"

text \<open>The texts the group can take when the pattern \<open>front\<close> then \<open>grp\<close> matches at the head
  of \<open>s\<close>, in priority order; and group 1 of the leftmost match.\<close>

definition captures_at :: "re \<Rightarrow> re \<Rightarrow> string \<Rightarrow> string list" where
  "captures_at front grp s =
     concat (map (\<lambda>r. map (\<lambda>e. take (length r - length e) r) (rests grp r)) (rests front s))"

fun first_capture :: "re \<Rightarrow> re \<Rightarrow> string \<Rightarrow> string option" where
  "first_capture front grp [] =
     (case captures_at front grp [] of g # gs \<Rightarrow> Some g | [] \<Rightarrow> None)"
| "first_capture front grp (c # cs) =
     (case captures_at front grp (c # cs) of
        g # gs \<Rightarrow> Some g
      | [] \<Rightarrow> first_capture front grp cs)"

definition imagePathMatch :: "string \<Rightarrow> string option" where
  "imagePathMatch aiResponse =
     (case first_capture legacy_front legacy_group aiResponse of
        Some g \<Rightarrow> Some g
      | None \<Rightarrow> first_capture Eps users_group aiResponse)"

text \<open>
  The three patterns that need no backtracking, as terms of \<open>re\<close>: the directive
  \<^verbatim>\<open>\[SEND_FILE:([^\]]+)\]\<close>, the pattern of the replacement
  \<^verbatim>\<open>\s*\[SEND_FILE:[^\]]+\]\s*\<close> and the URL \<^verbatim>\<open>https:\/\/[^\s\]]+\<close>. The direct
  matchers \<open>directive_at\<close>, \<open>replaceTags\<close> and \<open>url_at\<close> are shown below to agree with them.
  \<open>backoffs P s\<close> lists what a greedy run over the class \<open>P\<close> can leave of \<open>s\<close>, the
  longest run first.
\<close>

fun lit :: "string \<Rightarrow> re" where
  "lit [] = Eps"
| "lit (c # cs) = Cat (Sym (\<lambda>x. x = c)) (lit cs)"

definition directive_re :: re where
  "directive_re =
     Cat (lit ''[SEND_FILE:'')
       (Cat (plus (Sym (\<lambda>c. c \<noteq> CHR '']''))) (Sym (\<lambda>c. c = CHR '']'')))"

definition strip_re :: re where
  "strip_re = Cat (Star (Sym is_space)) (Cat directive_re (Star (Sym is_space)))"

definition url_re :: re where
  "url_re = Cat (lit ''https://'') (plus (Sym url_char))"

fun backoffs :: "(char \<Rightarrow> bool) \<Rightarrow> string \<Rightarrow> string list" where
  "backoffs P [] = [[]]"
| "backoffs P (c # cs) = (if P c then backoffs P cs @ [c # cs] else [c # cs])"


section \<open>From the AI reply to what is sent\<close>

text \<open>
  The file system is an input: \<open>existsSync fs p\<close> answers \<^verbatim>\<open>fs.existsSync(p)\<close>, and
  \<open>existsNarrow fs p\<close> answers it for \<open>p\<close> with the space before \<^verbatim>\<open>AM.\<close> or \<^verbatim>\<open>PM.\<close>
  replaced by U+202F. When \<open>p\<close> has no such place the replacement gives \<open>p\<close> back.
\<close>

record fsys =
  existsSync :: "string \<Rightarrow> bool"
  existsNarrow :: "string \<Rightarrow> bool"

definition locate :: "fsys \<Rightarrow> string \<Rightarrow> file_ref option" where
  "locate fs p =
     (if existsSync fs p then Some (AsWritten p)
      else if (str_includes p '' AM.'' \<or> str_includes p '' PM.'') \<and> existsNarrow fs p
        then Some (NarrowSpaced p)
      else None)"

text \<open>
  The local variables of the handler once the reply is parsed: \<open>filePath\<close> is the trimmed
  group 1 of the directive (or of the heuristic when there is no directive), \<open>fileRef\<close> the
  existing file that will be handed to the transport, \<open>cleanResponse\<close> the text.
\<close>

record extraction =
  filePath :: "string option"
  fileRef :: "file_ref option"
  cleanResponse :: string
  viaHeuristic :: bool

definition stripTags :: "string \<Rightarrow> string" where
  "stripTags aiResponse = trim (replaceTags aiResponse)"

definition parseReply :: "fsys \<Rightarrow> string \<Rightarrow> extraction" where
  "parseReply fs aiResponse =
     (case sendFileMatch aiResponse of
        Some g \<Rightarrow>
          (let p = trim g; found = locate fs p
           in \<lparr> filePath = Some p, fileRef = found,
                cleanResponse =
                  (if found = None
                   then ''File not found: '' @ p @ newline @ newline @ stripTags aiResponse
                   else stripTags aiResponse),
                viaHeuristic = False \<rparr>)
      | None \<Rightarrow>
          (case imagePathMatch aiResponse of
             Some g \<Rightarrow>
               \<lparr> filePath = Some (trim g),
                 fileRef = (if existsSync fs (trim g) then Some (AsWritten (trim g)) else None),
                 cleanResponse = aiResponse, viaHeuristic = True \<rparr>
           | None \<Rightarrow>
               \<lparr> filePath = None, fileRef = None, cleanResponse = aiResponse,
                 viaHeuristic = False \<rparr>))"

text \<open>
  The file, if one was found, goes out with the first 200 code units of the text as its
  caption; the text goes out as a reply unless the file was sent (\<^verbatim>\<open>cleanResponse ||
  aiResponse\<close>: an empty text gives way to the raw reply).
\<close>

definition deliverAIResponse :: "fsys \<Rightarrow> (file_ref \<Rightarrow> bool) \<Rightarrow> string \<Rightarrow> server \<Rightarrow> server" where
  "deliverAIResponse fs tr aiResponse s =
     (let x = parseReply fs aiResponse;
          (fileSent, s1) =
             (case fileRef x of
                Some f \<Rightarrow> sendWhatsAppMedia tr f (TextCaption (take 200 (cleanResponse x))) s
              | None \<Rightarrow> (False, s))
      in if \<not> fileSent
         then sendWhatsAppReply
                (Reply (if cleanResponse x \<noteq> [] then cleanResponse x else aiResponse)) s1
         else s1)"

text \<open>
  Modelled from the spec's words \<open>the non-directive text\<close>: the reply with every directive
  occurrence cut out and nothing else touched. It is the yardstick for what the stripping
  has to preserve, and is not part of the program.
\<close>

function spec_without_directives :: "string \<Rightarrow> string" where
  "spec_without_directives s =
     (case directive_at s of
        Some m \<Rightarrow> spec_without_directives (snd m)
      | None \<Rightarrow> (case s of [] \<Rightarrow> [] | c # cs \<Rightarrow> c # spec_without_directives cs))"
  by pat_completeness auto

termination spec_without_directives
proof (relation "measure length")
  show "wf (measure length)" by simp
next
  fix s :: string and m
  assume "directive_at s = Some m"
  then show "(snd m, s) \<in> measure length" by (simp add: directive_at_shorter)
next
  fix s :: string and c cs
  assume "s = c # cs"
  then show "(cs, s) \<in> measure length" by simp
qed

declare spec_without_directives.simps [simp del]

section \<open>Routing of a self-chat message\<close>

text \<open>
  A message of the self-chat as the handler sees it: its body, whether media is attached
  and whether the download of the media gave a result. \<open>route\<close> names the branch of the
  handler that takes the message.
\<close>

record message =
  body :: string
  hasMedia :: bool
  mediaLoaded :: bool

datatype route =
    SwitchToClaude
  | SwitchToQwen
  | ShowStatus
  | ClearHistory
  | QueueFolder string
  | QueueStatus
  | QueueStop
  | SendFile string
  | Screenshot string
  | FreeformPrompt string
  | MediaPrompt
  | NotProcessed

definition classify :: "message \<Rightarrow> route" where
  "classify m =
     (if body m \<noteq> [] \<and> trim (body m) \<noteq> [] \<and> \<not> hasMedia m then
        (let text = trim (body m); lower = toLowerCase text
         in if lower = ''/claude'' then SwitchToClaude
            else if lower = ''/qwen'' then SwitchToQwen
            else if lower = ''/status'' then ShowStatus
            else if lower = ''/clear'' then ClearHistory
            else if prefix ''/queue '' lower then QueueFolder text
            else if lower = ''/queue-status'' then QueueStatus
            else if lower = ''/queue-stop'' then QueueStop
            else if prefix ''/send'' lower then SendFile text
            else if prefix ''/screenshot'' lower then Screenshot text
            else FreeformPrompt text)
      else if hasMedia m \<and> mediaLoaded m then MediaPrompt
      else NotProcessed)"

section \<open>Predicates on the queue state\<close>

text \<open>
  \<open>balanced\<close> is the equation of the specification; \<open>accounted\<close> counts the suspended sends
  as well, and \<open>within_total\<close> is the inequality.
\<close>

definition balanced :: "server \<Rightarrow> bool" where
  "balanced s =
     (sentFiles (queueStatus s) + length (fileQueue s) = totalFiles (queueStatus s))"

definition accounted :: "server \<Rightarrow> bool" where
  "accounted s =
     (sentFiles (queueStatus s) + length (fileQueue s) + length (inflight s)
        = totalFiles (queueStatus s))"

definition within_total :: "server \<Rightarrow> bool" where
  "within_total s =
     (sentFiles (queueStatus s) + length (fileQueue s) + length (inflight s)
        \<le> totalFiles (queueStatus s))"

definition queue_inv :: "server \<Rightarrow> bool" where
  "queue_inv s = ((active (queueStatus s) \<longrightarrow> accounted s) \<and> within_total s)"

text \<open>Every armed timer has a handle that was already given out.\<close>

definition handles_fresh :: "server \<Rightarrow> bool" where
  "handles_fresh s = list_all (\<lambda>t. fst t < nextTimer s) (timers s)"

text \<open>
  \<open>entry_name f\<close>: \<open>f\<close> can be the name of a directory entry.
  \<open>delivered folder names k st\<close>: of the files \<open>names\<close> of \<open>folder\<close>, the first \<open>k\<close> have been
  delivered in that order, the others wait in that order and no send is suspended, the
  queue being active.
  \<open>queue_timer_armed delay st\<close>: the timer of the queue is armed with that delay.
\<close>

definition entry_name :: "string \<Rightarrow> bool" where
  "entry_name f = (f \<noteq> [] \<and> CHR ''/'' \<notin> set f \<and> f \<noteq> ''.'' \<and> f \<noteq> ''..'')"

definition delivered :: "string \<Rightarrow> string list \<Rightarrow> nat \<Rightarrow> server \<Rightarrow> bool" where
  "delivered folderPath names k st =
     (fileQueue st = map (path_join folderPath) (drop k names)
      \<and> inflight st = []
      \<and> sentList (queueStatus st) = take k names
      \<and> sentFiles (queueStatus st) = k
      \<and> totalFiles (queueStatus st) = length names
      \<and> active (queueStatus st))"

definition queue_timer_armed :: "nat \<Rightarrow> server \<Rightarrow> bool" where
  "queue_timer_armed delay st =
     (case queueInterval st of
        Some h \<Rightarrow> find (\<lambda>t. fst t = h) (timers st) = Some (h, delay, QueueTick)
      | None \<Rightarrow> False)"

section \<open>Fixtures\<close>

definition delivers_all :: "file_ref \<Rightarrow> bool" where
  "delivers_all f = True"

definition ready :: server where
  "ready = apply_op (ClientReady (Some ''me@lid'')) initial"

definition fixture_listing :: "(string \<times> stat) list" where
  "fixture_listing = [(''a.txt'', IsFile), (''b.txt'', IsFile), (''c.txt'', IsFile)]"

definition all_files :: fsys where
  "all_files = \<lparr> existsSync = (\<lambda>p. True), existsNarrow = (\<lambda>p. False) \<rparr>"

definition no_files :: fsys where
  "no_files = \<lparr> existsSync = (\<lambda>p. False), existsNarrow = (\<lambda>p. False) \<rparr>"

definition long_reply :: string where
  "long_reply =
       ''Saved screenshot: /Users/x/Desktop/shot.png! It shows the whole deskto''
       @ ''p with the terminal on the left and the browser on the right, taken ri''
       @ ''ght after the build had finished, so that you can read the last lines ''
       @ ''of the output and compare them with the log.''"

section \<open>Conversation history\<close>

lemma claude_round_length:
  "length (conversationHistory (snd (sendToAI backend p ''claude'' s))) =
     min (length (conversationHistory s) + 2) 21"
  by (simp add: sendToAI_def Let_def trimHistory_def MAX_HISTORY_def)

lemma claude_rounds_step:
  "claudeRounds backend (p # ps) s =
     claudeRounds backend ps (snd (sendToAI backend p ''claude'' s))"
  by (simp add: claudeRounds_def)

lemma claude_rounds_length:
  "length (conversationHistory (claudeRounds backend ps s)) =
     (if ps = [] then length (conversationHistory s)
      else min (length (conversationHistory s) + 2 * length ps) 21)"
proof (induction ps arbitrary: s)
  case Nil
  show ?case by (simp add: claudeRounds_def)
next
  case (Cons p ps)
  show ?case
    unfolding claude_rounds_step Cons.IH claude_round_length by (cases ps) auto
qed

text \<open>
  C1. After eleven completed rounds against the Claude backend, starting from the empty
  history, the stored history holds 21 entries: the history is cut to 20 entries before
  the assistant entry is pushed, not after.
\<close>

theorem history_after_eleven_rounds:
  "length (conversationHistory (claudeRounds backend
      [''m1'', ''m2'', ''m3'', ''m4'', ''m5'', ''m6'', ''m7'', ''m8'', ''m9'', ''m10'', ''m11'']
      initial)) = 21"
  by (simp add: claudeRounds_def claude_round_length initial_def)

text \<open>
  C10. A call of \<^verbatim>\<open>sendToAI\<close> with any provider other than \<^verbatim>\<open>claude\<close> leaves the
  conversation history (and the whole module state) as it was, so a later Claude round
  builds the same prompt, gets the same answer and stores the same history as if the
  call had not happened.
\<close>

theorem other_provider_keeps_history:
  assumes "provider \<noteq> ''claude''"
  shows "conversationHistory (snd (sendToAI backend prompt provider s)) = conversationHistory s
    \<and> snd (sendToAI backend prompt provider s) = s
    \<and> sendToAI backend' prompt' ''claude'' (snd (sendToAI backend prompt provider s))
        = sendToAI backend' prompt' ''claude'' s"
  using assms by (auto simp: sendToAI_def split: option.splits)

theorem other_provider_keeps_history_witness:
  "''qwen'' \<noteq> ''claude''
   \<and> conversationHistory (snd (sendToAI
         (\<lambda>p. \<lparr> procError = None, stdout = ''hello'', stderr = [] \<rparr>) ''hi'' ''qwen''
         (initial\<lparr> conversationHistory := [\<lparr> role = User, content = ''a'' \<rparr>] \<rparr>)))
       = [\<lparr> role = User, content = ''a'' \<rparr>]"
  using other_provider_keeps_history
    [of "''qwen''" "\<lambda>p. \<lparr> procError = None, stdout = ''hello'', stderr = [] \<rparr>" "''hi''"
        "initial\<lparr> conversationHistory := [\<lparr> role = User, content = ''a'' \<rparr>] \<rparr>"]
  by simp

section \<open>Paths of the queued files\<close>

lemma split_path_not_Nil: "split_path s \<noteq> []"
  by (induction s) (auto split: list.splits)

lemma split_path_plain: "CHR ''/'' \<notin> set f \<Longrightarrow> split_path f = [f]"
  by (induction f) auto

lemma split_path_append:
  "split_path (a @ CHR ''/'' # b) = split_path a @ split_path b"
proof (induction a)
  case Nil
  show ?case by simp
next
  case (Cons c a)
  obtain seg segs where sp: "split_path a = seg # segs"
    using split_path_not_Nil[of a] by (cases "split_path a") auto
  show ?case using Cons sp by simp
qed

lemma norm_step_name:
  "entry_name f \<Longrightarrow> norm_step allow res f = res @ [f]"
  by (simp add: norm_step_def entry_name_def)

lemma join_slash_snoc:
  "\<exists>x. join_slash (res @ [f]) = x @ f \<and> (x = [] \<or> last x = CHR ''/'')"
proof (induction res rule: join_slash.induct)
  case 1
  show ?case by simp
next
  case (2 x)
  have "join_slash ([x] @ [f]) = (x @ ''/'') @ f \<and> last (x @ ''/'') = CHR ''/''" by simp
  then show ?case by blast
next
  case (3 x y ys)
  then obtain z where z: "join_slash ((y # ys) @ [f]) = z @ f" "z = [] \<or> last z = CHR ''/''"
    by blast
  have "join_slash ((x # y # ys) @ [f]) = (x @ ''/'' @ z) @ f" using z(1) by simp
  moreover have "last (x @ ''/'' @ z) = CHR ''/''" using z(2) by auto
  ultimately show ?case by blast
qed

lemma normalize_ends_with_name:
  assumes f: "entry_name f" and p: "p = f \<or> (\<exists>d. p = d @ CHR ''/'' # f)"
  shows "\<exists>x. normalize p = x @ f \<and> (x = [] \<or> last x = CHR ''/'')"
proof -
  from f have fne: "f \<noteq> []" and noslash: "CHR ''/'' \<notin> set f" by (simp_all add: entry_name_def)
  from p fne have pne: "p \<noteq> []" by auto
  from p fne have lastp: "last p = last f" by auto
  from fne noslash have "last f \<noteq> CHR ''/''" using last_in_set by metis
  with lastp have trail: "last p \<noteq> CHR ''/''" by simp
  have "\<exists>segs. split_path p = segs @ [f]"
  proof -
    from p show ?thesis
    proof
      assume "p = f"
      then have "split_path p = [] @ [f]" using noslash by (simp add: split_path_plain)
      then show ?thesis by blast
    next
      assume "\<exists>d. p = d @ CHR ''/'' # f"
      then obtain d where "p = d @ CHR ''/'' # f" by blast
      then have "split_path p = split_path d @ [f]"
        using noslash by (simp add: split_path_append split_path_plain)
      then show ?thesis by blast
    qed
  qed
  then obtain segs where segs: "split_path p = segs @ [f]" by blast
  let ?allow = "hd p \<noteq> CHR ''/''"
  let ?res = "foldl (norm_step ?allow) [] segs"
  have fold: "foldl (norm_step ?allow) [] (split_path p) = ?res @ [f]"
    using segs f by (simp add: norm_step_name)
  obtain x where x: "join_slash (?res @ [f]) = x @ f" "x = [] \<or> last x = CHR ''/''"
    using join_slash_snoc by blast
  from x(1) fne have bne: "join_slash (?res @ [f]) \<noteq> []" by simp
  have "normalize p = (if hd p = CHR ''/'' then ''/'' else []) @ x @ f"
    using pne trail fold bne x(1) by (simp add: normalize_def Let_def)
  then have "normalize p = ((if hd p = CHR ''/'' then ''/'' else []) @ x) @ f" by simp
  moreover have "(if hd p = CHR ''/'' then ''/'' else []) @ x = []
      \<or> last ((if hd p = CHR ''/'' then ''/'' else []) @ x) = CHR ''/''"
    using x(2) by auto
  ultimately show ?thesis by blast
qed

lemma basename_suffix:
  assumes "entry_name f" and "x = [] \<or> last x = CHR ''/''"
  shows "basename (x @ f) = f"
proof -
  from assms(1) have fne: "f \<noteq> []" and noslash: "CHR ''/'' \<notin> set f" by (simp_all add: entry_name_def)
  then obtain c cs where rf: "rev f = c # cs" by (cases "rev f") auto
  then have "c \<in> set f" by (metis list.set_intros(1) set_rev)
  with noslash have c: "c \<noteq> CHR ''/''" by auto
  have d: "dropWhile (\<lambda>c. c = CHR ''/'') (rev (x @ f)) = rev f @ rev x"
    using rf c by simp
  have all: "\<And>y. y \<in> set (rev f) \<Longrightarrow> y \<noteq> CHR ''/''" using noslash by auto
  have t: "takeWhile (\<lambda>c. c \<noteq> CHR ''/'') (rev f @ rev x)
      = rev f @ takeWhile (\<lambda>c. c \<noteq> CHR ''/'') (rev x)"
    using all by (rule takeWhile_append2)
  have "takeWhile (\<lambda>c. c \<noteq> CHR ''/'') (rev x) = []"
  proof (cases x rule: rev_cases)
    case Nil
    then show ?thesis by simp
  next
    case (snoc ys y)
    with assms(2) show ?thesis by simp
  qed
  with d t show ?thesis by (simp add: basename_def)
qed

lemma basename_join:
  assumes "entry_name f"
  shows "basename (path_join d f) = f"
proof -
  from assms have fne: "f \<noteq> []" by (simp add: entry_name_def)
  have "path_join d f = normalize f \<or> path_join d f = normalize (d @ CHR ''/'' # f)"
    using fne by (simp add: path_join_def)
  then obtain p where p: "path_join d f = normalize p" "p = f \<or> (\<exists>d. p = d @ CHR ''/'' # f)"
    by blast
  from normalize_ends_with_name[OF assms p(2)] obtain x where
    "normalize p = x @ f" "x = [] \<or> last x = CHR ''/''" by blast
  with p(1) basename_suffix[OF assms] show ?thesis by simp
qed

lemma join_examples:
  "path_join ''/fixture'' ''a.txt'' = ''/fixture/a.txt''"
  "path_join ''/fixture/'' ''a.txt'' = ''/fixture/a.txt''"
  "path_join ''/a/../b//c/.'' ''x.y'' = ''/b/c/x.y''"
  "path_join ''../a'' ''x'' = ''../a/x''"
  "basename ''/fixture/a.txt'' = ''a.txt''"
  "basename ''/a/b//'' = ''b''"
  by (simp_all add: path_join_def normalize_def norm_step_def basename_def Let_def)

section \<open>The queue: balance of the counters\<close>

lemma sendNext_shift:
  assumes "fileQueue s = p # rest"
  shows "sendNextQueuedFile s =
     s\<lparr> fileQueue := rest,
        inflight := inflight s @
          [(p, QueueCaption (sentFiles (queueStatus s) + 1) (totalFiles (queueStatus s))
                 (basename p), connected s)] \<rparr>"
  using assms by (simp add: sendNextQueuedFile_def)

lemma sendNext_empty:
  assumes "fileQueue s = []"
  shows "fileQueue (sendNextQueuedFile s) = []"
    and "inflight (sendNextQueuedFile s) = inflight s"
    and "queueStatus (sendNextQueuedFile s) = (queueStatus s)\<lparr> active := False \<rparr>"
    and "queueInterval (sendNextQueuedFile s) = None"
  using assms
  by (auto simp: sendNextQueuedFile_def stopFileQueue_def sendWhatsAppReply_def emit_def
      clearInterval_def Let_def split: option.splits)

lemma sendSettled_failed:
  assumes "i < length (inflight s)" and "inflight s ! i = (p, cap, handed)"
    and "\<not> (handed \<and> ok)"
  shows "sendSettled i ok s =
     s\<lparr> inflight := take i (inflight s) @ drop (Suc i) (inflight s),
        fileQueue := p # fileQueue s \<rparr>"
  using assms by (auto simp: sendSettled_def Let_def)

lemma sendSettled_sent:
  assumes "i < length (inflight s)" and "inflight s ! i = (p, cap, True)"
  shows "sendSettled i True s =
     s\<lparr> inflight := take i (inflight s) @ drop (Suc i) (inflight s),
        queueStatus := (queueStatus s)\<lparr> sentFiles := sentFiles (queueStatus s) + 1,
                          sentList := sentList (queueStatus s) @ [basename p] \<rparr>,
        outbox := outbox s @
          [Media (AsWritten p) cap,
           QueueProgress ((queueStatus s)\<lparr> sentFiles := sentFiles (queueStatus s) + 1,
                          sentList := sentList (queueStatus s) @ [basename p] \<rparr>)] \<rparr>"
  using assms by (simp add: sendSettled_def Let_def emit_def)

lemma sendSettled_none: "\<not> i < length (inflight s) \<Longrightarrow> sendSettled i ok s = s"
  by (simp add: sendSettled_def)

lemma length_remove_nth:
  "i < length xs \<Longrightarrow> Suc (length (take i xs @ drop (Suc i) xs)) = length xs"
  by simp

lemma queue_inv_sendNext: "queue_inv s \<Longrightarrow> queue_inv (sendNextQueuedFile s)"
proof (cases "fileQueue s")
  case Nil
  assume "queue_inv s"
  with Nil sendNext_empty[OF Nil] show ?thesis
    by (simp add: queue_inv_def accounted_def within_total_def)
next
  case (Cons p rest)
  assume "queue_inv s"
  with Cons show ?thesis
    by (simp add: sendNext_shift[OF Cons] queue_inv_def accounted_def within_total_def)
qed

lemma queue_inv_settled: "queue_inv s \<Longrightarrow> queue_inv (sendSettled i ok s)"
proof (cases "i < length (inflight s)")
  case False
  assume "queue_inv s"
  with False show ?thesis by (simp add: sendSettled_none)
next
  case True
  assume q: "queue_inv s"
  obtain p cap handed where e: "inflight s ! i = (p, cap, handed)"
    by (cases "inflight s ! i") auto
  from True have len: "Suc (length (take i (inflight s) @ drop (Suc i) (inflight s))) = length (inflight s)"
    by (rule length_remove_nth)
  show ?thesis
  proof (cases "handed \<and> ok")
    case True
    with e have e': "inflight s ! i = (p, cap, True)" and ok: "ok = True" by simp_all
    show ?thesis
      using q len unfolding ok sendSettled_sent[OF \<open>i < length (inflight s)\<close> e']
      by (simp add: queue_inv_def accounted_def within_total_def del: length_append length_take length_drop) linarith
  next
    case False
    show ?thesis
      using q len unfolding sendSettled_failed[OF \<open>i < length (inflight s)\<close> e False]
      by (simp add: queue_inv_def accounted_def within_total_def del: length_append length_take length_drop) linarith
  qed
qed

lemma queue_inv_stop: "queue_inv s \<Longrightarrow> queue_inv (stopFileQueue s)"
  by (auto simp: queue_inv_def stopFileQueue_def clearInterval_def within_total_def Let_def
      split: option.splits)

lemma queue_inv_fire: "queue_inv s \<Longrightarrow> queue_inv (fire h ok s)"
proof -
  assume q: "queue_inv s"
  have e: "queue_inv (emit TypingSignal s)"
    using q by (simp add: emit_def queue_inv_def accounted_def within_total_def)
  show ?thesis
    using q e by (simp add: fire_def queue_inv_sendNext split: option.splits callback.splits)
qed

lemma queue_inv_tick: "queue_inv s \<Longrightarrow> queue_inv (queueTick s)"
  by (simp add: queueTick_def queue_inv_fire split: option.splits)

lemma queue_inv_timers [simp]:
  "queue_inv (s\<lparr> timers := t \<rparr>) = queue_inv s"
  by (simp add: queue_inv_def accounted_def within_total_def)

lemma start_not_queued:
  assumes "\<forall>n k. fst (startFileQueue listing folderPath period s) \<noteq> Queued n k"
  shows "snd (startFileQueue listing folderPath period s) =
      (case queueInterval s of Some h \<Rightarrow> clearInterval h s | None \<Rightarrow> s)"
  using assms
  by (auto simp: startFileQueue_def Let_def setInterval_def split: option.splits if_splits)

lemma start_queued:
  assumes "fst (startFileQueue listing folderPath period s) = Queued n k"
  shows "\<exists>entries s1. listing = Some entries
     \<and> \<not> list_ex (\<lambda>e. snd e = StatThrows) entries
     \<and> map (\<lambda>e. path_join folderPath (fst e)) (filter (\<lambda>e. snd e = IsFile) entries) \<noteq> []
     \<and> s1 = (case queueInterval s of Some h \<Rightarrow> clearInterval h s | None \<Rightarrow> s)
               \<lparr> fileQueue := map (\<lambda>e. path_join folderPath (fst e))
                                (filter (\<lambda>e. snd e = IsFile) entries),
                 queueStatus := \<lparr> active = True, folder = Some folderPath,
                   intervalMs = period,
                   totalFiles = length (map (\<lambda>e. path_join folderPath (fst e))
                                (filter (\<lambda>e. snd e = IsFile) entries)),
                   sentFiles = 0, sentList = [] \<rparr> \<rparr>
     \<and> snd (startFileQueue listing folderPath period s) =
         (sendNextQueuedFile s1)
           \<lparr> timers := timers (sendNextQueuedFile s1) @
                [(nextTimer (sendNextQueuedFile s1), effective_delay period, QueueTick)],
             nextTimer := Suc (nextTimer (sendNextQueuedFile s1)),
             queueInterval := Some (nextTimer (sendNextQueuedFile s1)) \<rparr>"
  using assms
  by (auto simp: startFileQueue_def Let_def setInterval_def split: option.splits if_splits)

lemma queue_inv_start:
  assumes "queue_inv s" and "inflight s = []"
  shows "queue_inv (snd (startFileQueue listing folderPath period s))"
proof (cases "\<exists>n k. fst (startFileQueue listing folderPath period s) = Queued n k")
  case False
  then have "snd (startFileQueue listing folderPath period s) =
      (case queueInterval s of Some h \<Rightarrow> clearInterval h s | None \<Rightarrow> s)"
    by (intro start_not_queued) blast
  with assms(1) show ?thesis by (simp add: clearInterval_def split: option.splits)
next
  case True
  then obtain n k where "fst (startFileQueue listing folderPath period s) = Queued n k" by blast
  from start_queued[OF this] obtain entries s1 where
    s1: "s1 = (case queueInterval s of Some h \<Rightarrow> clearInterval h s | None \<Rightarrow> s)
               \<lparr> fileQueue := map (\<lambda>e. path_join folderPath (fst e))
                                (filter (\<lambda>e. snd e = IsFile) entries),
                 queueStatus := \<lparr> active = True, folder = Some folderPath,
                   intervalMs = period,
                   totalFiles = length (map (\<lambda>e. path_join folderPath (fst e))
                                (filter (\<lambda>e. snd e = IsFile) entries)),
                   sentFiles = 0, sentList = [] \<rparr> \<rparr>"
    and res: "snd (startFileQueue listing folderPath period s) =
         (sendNextQueuedFile s1)
           \<lparr> timers := timers (sendNextQueuedFile s1) @
                [(nextTimer (sendNextQueuedFile s1), effective_delay period, QueueTick)],
             nextTimer := Suc (nextTimer (sendNextQueuedFile s1)),
             queueInterval := Some (nextTimer (sendNextQueuedFile s1)) \<rparr>"
    by blast
  have "inflight s1 = []"
    unfolding s1 using assms(2) by (simp add: clearInterval_def split: option.splits)
  then have "queue_inv s1"
    unfolding s1 by (simp add: queue_inv_def accounted_def within_total_def)
  then have "queue_inv (sendNextQueuedFile s1)" by (rule queue_inv_sendNext)
  then show ?thesis unfolding res by (simp add: queue_inv_def accounted_def within_total_def)
qed

lemma queue_inv_apply_op:
  assumes "queue_inv s" and "is_start op \<longrightarrow> inflight s = []"
  shows "queue_inv (apply_op op s)"
proof (cases op)
  case (Start listing folderPath period)
  with assms show ?thesis by (simp add: queue_inv_start)
next
  case Tick
  with assms show ?thesis by (simp add: queue_inv_tick)
next
  case (Settled i ok)
  with assms show ?thesis by (simp add: queue_inv_settled)
next
  case Stop
  with assms show ?thesis by (simp add: queue_inv_stop)
next
  case (ClientReady found)
  with assms show ?thesis by (simp add: queue_inv_def accounted_def within_total_def)
next
  case (SelfChatSeen chat)
  with assms show ?thesis by (simp add: queue_inv_def accounted_def within_total_def)
next
  case ClientDisconnected
  with assms show ?thesis by (simp add: queue_inv_def accounted_def within_total_def)
qed

lemma run_Cons: "run (op # ops) s = run ops (apply_op op s)"
  by (simp add: run_def)

lemma queue_inv_run: "queue_inv s \<Longrightarrow> calm ops s \<Longrightarrow> queue_inv (run ops s)"
proof (induction ops arbitrary: s)
  case Nil
  then show ?case by (simp add: run_def)
next
  case (Cons op ops)
  from Cons.prems have "queue_inv (apply_op op s)"
    by (intro queue_inv_apply_op) (auto split: if_splits)
  moreover from Cons.prems have "calm ops (apply_op op s)" by simp
  ultimately show ?case unfolding run_Cons by (rule Cons.IH)
qed

lemma queue_inv_initial: "queue_inv initial"
  by (simp add: queue_inv_def initial_def accounted_def within_total_def)

lemmas eval_defs = run_def startFileQueue_def sendNextQueuedFile_def sendSettled_def
  sendWhatsAppReply_def stopFileQueue_def setInterval_def effective_delay_def clearInterval_def
  emit_def connected_def queueTick_def fire_def settleLast_def initial_def ready_def
  fixture_listing_def path_join_def normalize_def norm_step_def basename_def Let_def
  getQueueStatus_def

text \<open>
  C5, as stated, fails. After a start on the three files of the fixture, the delivery of
  the first one and a stop, no send is suspended, and \<open>sentFiles + |pending|\<close> is \<open>1 + 0\<close>
  while \<open>totalFiles\<close> is \<open>3\<close>: \<^verbatim>\<open>stopFileQueue\<close> empties the queue and keeps the counters.
  It fails in an active queue as well: when the start returns, the first file is taken
  off the queue and not yet counted, \<open>0 + 2\<close> against \<open>3\<close>.
\<close>

theorem queue_balance_broken_by_stop:
  "\<not> balanced (run [ClientReady (Some ''me@lid''),
                     Start (Some fixture_listing) ''/fixture'' 1000] initial)
   \<and> active (queueStatus (run [ClientReady (Some ''me@lid''),
                     Start (Some fixture_listing) ''/fixture'' 1000] initial))
   \<and> sentFiles (queueStatus (run [ClientReady (Some ''me@lid''),
                     Start (Some fixture_listing) ''/fixture'' 1000] initial)) = 0
   \<and> length (fileQueue (run [ClientReady (Some ''me@lid''),
                     Start (Some fixture_listing) ''/fixture'' 1000] initial)) = 2
   \<and> totalFiles (queueStatus (run [ClientReady (Some ''me@lid''),
                     Start (Some fixture_listing) ''/fixture'' 1000] initial)) = 3
   \<and> \<not> balanced (run [ClientReady (Some ''me@lid''),
                     Start (Some fixture_listing) ''/fixture'' 1000,
                     Settled 0 True,
                     Stop] initial)
   \<and> inflight (run [ClientReady (Some ''me@lid''),
                     Start (Some fixture_listing) ''/fixture'' 1000,
                     Settled 0 True,
                     Stop] initial) = []
   \<and> calm [ClientReady (Some ''me@lid''),
            Start (Some fixture_listing) ''/fixture'' 1000,
            Settled 0 True,
            Stop] initial"
  by (simp add: eval_defs balanced_def)

text \<open>
  C5, amended. Take any state reached from the initial one by starts, ticks of the queue's
  timer, settled sends (delivered or failed, in any order), stops and changes of the
  connection, in which no start was made while a send was suspended. While the queue is
  active, \<open>sentFiles + |pending| + |suspended sends| = totalFiles\<close>, hence the equation
  \<open>sentFiles + |pending| = totalFiles\<close> whenever no send is suspended; and
  \<open>sentFiles + |pending| + |suspended sends| \<le> totalFiles\<close> in every such state, active or
  stopped.
\<close>

theorem queue_balance_while_active:
  assumes "calm ops initial"
  shows "(active (queueStatus (run ops initial)) \<longrightarrow> accounted (run ops initial))
    \<and> (active (queueStatus (run ops initial)) \<and> inflight (run ops initial) = []
         \<longrightarrow> balanced (run ops initial))
    \<and> within_total (run ops initial)"
  using queue_inv_run [OF queue_inv_initial assms]
  by (auto simp: queue_inv_def accounted_def balanced_def)

theorem queue_balance_while_active_witness:
  "calm [ClientReady (Some ''me@lid''), Start (Some fixture_listing) ''/fixture'' 1000,
         Settled 0 True, Tick] initial
   \<and> active (queueStatus (run [ClientReady (Some ''me@lid''),
        Start (Some fixture_listing) ''/fixture'' 1000, Settled 0 True, Tick] initial))
   \<and> accounted (run [ClientReady (Some ''me@lid''),
        Start (Some fixture_listing) ''/fixture'' 1000, Settled 0 True, Tick] initial)
   \<and> length (inflight (run [ClientReady (Some ''me@lid''),
        Start (Some fixture_listing) ''/fixture'' 1000, Settled 0 True, Tick] initial)) = 1"
proof -
  have c: "calm [ClientReady (Some ''me@lid''), Start (Some fixture_listing) ''/fixture'' 1000,
         Settled 0 True, Tick] initial"
    by (simp add: eval_defs)
  have a: "active (queueStatus (run [ClientReady (Some ''me@lid''),
        Start (Some fixture_listing) ''/fixture'' 1000, Settled 0 True, Tick] initial))
      \<and> length (inflight (run [ClientReady (Some ''me@lid''),
        Start (Some fixture_listing) ''/fixture'' 1000, Settled 0 True, Tick] initial)) = 1"
    by (simp add: eval_defs)
  from queue_balance_while_active [OF c] a c show ?thesis by blast
qed

text \<open>
  A start made while a send is suspended is outside the statement above: the new start
  resets the counters, the earlier send still counts when it settles, and the state at rest
  has \<open>sentFiles = 2\<close> with \<open>totalFiles = 1\<close>.
\<close>

lemma restart_during_a_send:
  "sentFiles (queueStatus (run [ClientReady (Some ''me@lid''),
       Start (Some fixture_listing) ''/fixture'' 1000,
       Start (Some [(''z.txt'', IsFile)]) ''/other'' 1000,
       Settled 0 True, Settled 0 True] initial)) = 2
   \<and> totalFiles (queueStatus (run [ClientReady (Some ''me@lid''),
       Start (Some fixture_listing) ''/fixture'' 1000,
       Start (Some [(''z.txt'', IsFile)]) ''/other'' 1000,
       Settled 0 True, Settled 0 True] initial)) = 1"
  by (simp add: eval_defs)

section \<open>The queue: a failed delivery\<close>

lemma tick_is_sendNext:
  "queue_timer_armed d s \<Longrightarrow> queueTick s = sendNextQueuedFile s"
  by (auto simp: queue_timer_armed_def queueTick_def fire_def split: option.splits)

lemma settled_frame:
  "timers (sendSettled i ok s) = timers s"
  "queueInterval (sendSettled i ok s) = queueInterval s"
  "nextTimer (sendSettled i ok s) = nextTimer s"
  "isReady (sendSettled i ok s) = isReady s"
  "selfChatId (sendSettled i ok s) = selfChatId s"
  by (simp_all add: sendSettled_def Let_def emit_def split_beta)

lemma armed_settled:
  "queue_timer_armed d (sendSettled i ok s) = queue_timer_armed d s"
  by (simp add: queue_timer_armed_def settled_frame split: option.splits)

lemma armed_shift:
  "fileQueue s \<noteq> [] \<Longrightarrow> queue_timer_armed d (sendNextQueuedFile s) = queue_timer_armed d s"
  by (cases "fileQueue s") (simp_all add: sendNext_shift queue_timer_armed_def split: option.splits)

lemma remove_last: "take (length xs) (xs @ [e]) @ drop (Suc (length xs)) (xs @ [e]) = xs"
  by simp

lemma retry_round:
  assumes "fileQueue s = p # rest"
  shows "settleLast False (sendNextQueuedFile s) = s"
proof -
  let ?e = "(p, QueueCaption (sentFiles (queueStatus s) + 1) (totalFiles (queueStatus s))
                 (basename p), connected s)"
  let ?s1 = "sendNextQueuedFile s"
  have s1: "?s1 = s\<lparr> fileQueue := rest, inflight := inflight s @ [?e] \<rparr>"
    using assms by (rule sendNext_shift)
  have i: "length (inflight s) < length (inflight ?s1)" unfolding s1 by simp
  have e: "inflight ?s1 ! length (inflight s) = ?e" unfolding s1 by simp
  have n: "\<not> (connected s \<and> False)" by simp
  have "settleLast False ?s1 = sendSettled (length (inflight s)) False ?s1"
    unfolding settleLast_def s1 by simp
  also have "\<dots> = ?s1\<lparr> inflight := take (length (inflight s)) (inflight ?s1)
                                @ drop (Suc (length (inflight s))) (inflight ?s1),
                     fileQueue := p # fileQueue ?s1 \<rparr>"
    using i e n by (rule sendSettled_failed)
  also have "\<dots> = s" unfolding s1 using assms by simp
  finally show ?thesis .
qed

lemma retry_rounds:
  assumes "fileQueue s = p # rest" and "queue_timer_armed d s"
  shows "((\<lambda>st. settleLast False (queueTick st)) ^^ n) s = s"
proof (induction n)
  case 0
  show ?case by simp
next
  case (Suc n)
  have "settleLast False (queueTick s) = s"
    using tick_is_sendNext[OF assms(2)] retry_round[OF assms(1)] by simp
  with Suc show ?case by simp
qed

text \<open>
  C6, as stated, fails when the timer ticks while the send of the tick before is still
  suspended: with \<^verbatim>\<open>b.txt\<close> in flight the tick hands over \<^verbatim>\<open>c.txt\<close>, so the file attempted
  on the tick after the one that fails is another file; \<^verbatim>\<open>b.txt\<close> goes back to the head
  when its send fails, and \<^verbatim>\<open>c.txt\<close> is delivered before it.
\<close>

theorem an_overlapping_tick_attempts_the_next_file:
  "map fst (inflight (run [ClientReady (Some ''me@lid''),
       Start (Some fixture_listing) ''/fixture'' 1000, Settled 0 True, Tick, Tick] initial))
     = [''/fixture/b.txt'', ''/fixture/c.txt'']
   \<and> fileQueue (run [ClientReady (Some ''me@lid''),
       Start (Some fixture_listing) ''/fixture'' 1000, Settled 0 True, Tick, Tick,
       Settled 0 False] initial) = [''/fixture/b.txt'']
   \<and> sentList (queueStatus (run [ClientReady (Some ''me@lid''),
       Start (Some fixture_listing) ''/fixture'' 1000, Settled 0 True, Tick, Tick,
       Settled 0 False, Settled 0 True] initial)) = [''a.txt'', ''c.txt'']"
  by (simp add: eval_defs)

text \<open>
  The timer has to be armed for the retry: when the tick that finds the queue empty comes
  before the failure of the last send, the queue is stopped and announced as complete, the
  failed path is put back, and no tick will take it.
\<close>

lemma failure_after_the_queue_ran_empty:
  "fileQueue (run [ClientReady (Some ''me@lid''),
       Start (Some [(''a.txt'', IsFile)]) ''/fixture'' 1000, Tick, Settled 0 False] initial)
     = [''/fixture/a.txt'']
   \<and> queueInterval (run [ClientReady (Some ''me@lid''),
       Start (Some [(''a.txt'', IsFile)]) ''/fixture'' 1000, Tick, Settled 0 False] initial)
     = None
   \<and> timers (run [ClientReady (Some ''me@lid''),
       Start (Some [(''a.txt'', IsFile)]) ''/fixture'' 1000, Tick, Settled 0 False] initial)
     = []
   \<and> outbox (run [ClientReady (Some ''me@lid''),
       Start (Some [(''a.txt'', IsFile)]) ''/fixture'' 1000, Tick, Settled 0 False] initial)
     = [QueueCompleteReply 1]
   \<and> run [ClientReady (Some ''me@lid''),
       Start (Some [(''a.txt'', IsFile)]) ''/fixture'' 1000, Tick, Settled 0 False, Tick] initial
     = run [ClientReady (Some ''me@lid''),
       Start (Some [(''a.txt'', IsFile)]) ''/fixture'' 1000, Tick, Settled 0 False] initial"
  by (simp add: eval_defs)

text \<open>
  C6, amended. When a suspended send of \<open>p\<close> settles as failed (the transport refused it,
  or the client was not connected when it was handed over), \<open>p\<close> goes back to the head of
  the pending queue, the other suspended sends stay, and \<open>sentFiles\<close>, \<open>sentList\<close> and the
  timer are untouched; if the timer of the queue is armed, the tick that follows the
  failure hands \<open>p\<close> over again. A tick followed by the failure of its send gives the state
  back unchanged, so any number \<open>n\<close> of such rounds does: the file is retried without bound
  at the period of the timer.
\<close>

theorem failed_delivery_is_put_back:
  "(i < length (inflight s) \<and> inflight s ! i = (p, cap, handed) \<and> \<not> (handed \<and> ok)
      \<and> queue_timer_armed d s \<longrightarrow>
        sendSettled i ok s =
          s\<lparr> inflight := take i (inflight s) @ drop (Suc i) (inflight s),
             fileQueue := p # fileQueue s \<rparr>
      \<and> fileQueue (sendSettled i ok s) = p # fileQueue s
      \<and> sentFiles (queueStatus (sendSettled i ok s)) = sentFiles (queueStatus s)
      \<and> sentList (queueStatus (sendSettled i ok s)) = sentList (queueStatus s)
      \<and> queue_timer_armed d (sendSettled i ok s)
      \<and> fileQueue (queueTick (sendSettled i ok s)) = fileQueue s
      \<and> map fst (inflight (queueTick (sendSettled i ok s)))
          = map fst (take i (inflight s) @ drop (Suc i) (inflight s)) @ [p])
   \<and> (fileQueue s = q # rest \<and> queue_timer_armed d s \<longrightarrow>
        ((\<lambda>st. settleLast False (queueTick st)) ^^ n) s = s)"
proof -
  have a: "sendSettled i ok s =
          s\<lparr> inflight := take i (inflight s) @ drop (Suc i) (inflight s),
             fileQueue := p # fileQueue s \<rparr>
      \<and> fileQueue (sendSettled i ok s) = p # fileQueue s
      \<and> sentFiles (queueStatus (sendSettled i ok s)) = sentFiles (queueStatus s)
      \<and> sentList (queueStatus (sendSettled i ok s)) = sentList (queueStatus s)
      \<and> queue_timer_armed d (sendSettled i ok s)
      \<and> fileQueue (queueTick (sendSettled i ok s)) = fileQueue s
      \<and> map fst (inflight (queueTick (sendSettled i ok s)))
          = map fst (take i (inflight s) @ drop (Suc i) (inflight s)) @ [p]"
    if h: "i < length (inflight s)" "inflight s ! i = (p, cap, handed)" "\<not> (handed \<and> ok)"
      "queue_timer_armed d s"
  proof -
    let ?s' = "sendSettled i ok s"
    have eq: "?s' = s\<lparr> inflight := take i (inflight s) @ drop (Suc i) (inflight s),
             fileQueue := p # fileQueue s \<rparr>"
      using h(1-3) by (rule sendSettled_failed)
    have ar: "queue_timer_armed d ?s'" using h(4) by (simp add: armed_settled)
    have fq: "fileQueue ?s' = p # fileQueue s" unfolding eq by simp
    have tk: "queueTick ?s' = sendNextQueuedFile ?s'" using ar by (rule tick_is_sendNext)
    have nx: "sendNextQueuedFile ?s' =
       ?s'\<lparr> fileQueue := fileQueue s,
           inflight := inflight ?s' @
             [(p, QueueCaption (sentFiles (queueStatus ?s') + 1) (totalFiles (queueStatus ?s'))
                 (basename p), connected ?s')] \<rparr>"
      using fq by (rule sendNext_shift)
    have "fileQueue (queueTick ?s') = fileQueue s" unfolding tk nx by simp
    moreover have "map fst (inflight (queueTick ?s'))
          = map fst (take i (inflight s) @ drop (Suc i) (inflight s)) @ [p]"
      unfolding tk nx by (simp add: eq)
    moreover have "sentFiles (queueStatus ?s') = sentFiles (queueStatus s)"
      "sentList (queueStatus ?s') = sentList (queueStatus s)"
      unfolding eq by simp_all
    ultimately show ?thesis using eq fq ar by blast
  qed
  have b: "((\<lambda>st. settleLast False (queueTick st)) ^^ n) s = s"
    if "fileQueue s = q # rest" "queue_timer_armed d s"
    using that by (rule retry_rounds)
  from a b show ?thesis by blast
qed

theorem failed_delivery_is_put_back_witness:
  "map fst (inflight (queueTick (sendSettled 0 False
       (run [ClientReady (Some ''me@lid''),
             Start (Some fixture_listing) ''/fixture'' 1000] initial))))
     = [''/fixture/a.txt'']
   \<and> fileQueue (sendSettled 0 False
       (run [ClientReady (Some ''me@lid''),
             Start (Some fixture_listing) ''/fixture'' 1000] initial))
     = [''/fixture/a.txt'', ''/fixture/b.txt'', ''/fixture/c.txt'']
   \<and> ((\<lambda>st. settleLast False (queueTick st)) ^^ 5)
       (run [ClientReady (Some ''me@lid''),
             Start (Some fixture_listing) ''/fixture'' 1000, Settled 0 True] initial)
     = run [ClientReady (Some ''me@lid''),
             Start (Some fixture_listing) ''/fixture'' 1000, Settled 0 True] initial"
proof -
  let ?s = "run [ClientReady (Some ''me@lid''),
             Start (Some fixture_listing) ''/fixture'' 1000] initial"
  let ?t = "run [ClientReady (Some ''me@lid''),
             Start (Some fixture_listing) ''/fixture'' 1000, Settled 0 True] initial"
  have h1: "0 < length (inflight ?s) \<and> inflight ?s ! 0
       = (''/fixture/a.txt'', QueueCaption 1 3 ''a.txt'', True) \<and> \<not> (True \<and> False)
       \<and> queue_timer_armed 1000 ?s"
    by (simp add: eval_defs queue_timer_armed_def)
  have fq: "fileQueue ?s = [''/fixture/b.txt'', ''/fixture/c.txt'']"
    "map fst (take 0 (inflight ?s) @ drop (Suc 0) (inflight ?s)) = []"
    by (simp_all add: eval_defs)
  have h2: "fileQueue ?t = ''/fixture/b.txt'' # [''/fixture/c.txt''] \<and> queue_timer_armed 1000 ?t"
    by (simp add: eval_defs queue_timer_armed_def)
  note a = failed_delivery_is_put_back
    [where s = "?s" and i = 0 and p = "''/fixture/a.txt''" and cap = "QueueCaption 1 3 ''a.txt''"
       and handed = True and ok = False and d = 1000, THEN conjunct1, rule_format, OF h1]
  note b = failed_delivery_is_put_back
    [where s = "?t" and q = "''/fixture/b.txt''" and rest = "[''/fixture/c.txt'']" and d = 1000
       and n = 5, THEN conjunct2, rule_format, OF h2]
  from a have "map fst (inflight (queueTick (sendSettled 0 False ?s)))
      = map fst (take 0 (inflight ?s) @ drop (Suc 0) (inflight ?s)) @ [''/fixture/a.txt'']"
    and "fileQueue (sendSettled 0 False ?s) = ''/fixture/a.txt'' # fileQueue ?s"
    by blast+
  with fq b show ?thesis by simp
qed

section \<open>The queue: order of delivery\<close>

lemma shift_then_sent:
  assumes conn: "connected st" and q: "fileQueue st = p # rest" and none: "inflight st = []"
  shows "settleLast True (sendNextQueuedFile st) =
     st\<lparr> fileQueue := rest,
         queueStatus := (queueStatus st)\<lparr> sentFiles := sentFiles (queueStatus st) + 1,
                          sentList := sentList (queueStatus st) @ [basename p] \<rparr>,
         outbox := outbox st @
          [Media (AsWritten p) (QueueCaption (sentFiles (queueStatus st) + 1)
             (totalFiles (queueStatus st)) (basename p)),
           QueueProgress ((queueStatus st)\<lparr> sentFiles := sentFiles (queueStatus st) + 1,
                          sentList := sentList (queueStatus st) @ [basename p] \<rparr>)] \<rparr>"
proof -
  let ?cap = "QueueCaption (sentFiles (queueStatus st) + 1) (totalFiles (queueStatus st))
                 (basename p)"
  let ?s1 = "sendNextQueuedFile st"
  have s1: "?s1 = st\<lparr> fileQueue := rest, inflight := [(p, ?cap, True)] \<rparr>"
    using sendNext_shift[OF q] conn none by simp
  have i: "0 < length (inflight ?s1)" and e: "inflight ?s1 ! 0 = (p, ?cap, True)"
    unfolding s1 by simp_all
  have "settleLast True ?s1 = sendSettled 0 True ?s1" unfolding settleLast_def s1 by simp
  also note sendSettled_sent[OF i e]
  finally show ?thesis unfolding s1 using none by simp
qed

lemma tick_delivers_next:
  assumes conn: "connected st"
    and armed: "queue_timer_armed d st"
    and dl: "delivered folderPath names k st"
    and k: "k < length names"
    and names: "\<forall>n\<in>set names. entry_name n"
  shows "connected (settleLast True (queueTick st))
     \<and> queue_timer_armed d (settleLast True (queueTick st))
     \<and> delivered folderPath names (Suc k) (settleLast True (queueTick st))"
proof -
  have step: "queueTick st = sendNextQueuedFile st" using armed by (rule tick_is_sendNext)
  from k have dr: "drop k names = names ! k # drop (Suc k) names"
    by (simp add: Cons_nth_drop_Suc)
  from dl dr have q: "fileQueue st = path_join folderPath (names ! k)
      # map (path_join folderPath) (drop (Suc k) names)"
    and none: "inflight st = []"
    by (simp_all add: delivered_def)
  from k names have nk: "entry_name (names ! k)" by simp
  have tk: "take (Suc k) names = take k names @ [names ! k]"
    using k by (simp add: take_Suc_conv_app_nth)
  show ?thesis
    unfolding step shift_then_sent[OF conn q none] basename_join[OF nk]
    using conn armed dl tk none
    by (simp add: connected_def queue_timer_armed_def delivered_def split: option.splits)
qed

lemma ticks_deliver:
  assumes conn: "connected st"
    and armed: "queue_timer_armed d st"
    and dl: "delivered folderPath names j st"
    and names: "\<forall>n\<in>set names. entry_name n"
  shows "j + k \<le> length names \<Longrightarrow>
     connected (((\<lambda>st. settleLast True (queueTick st)) ^^ k) st)
     \<and> queue_timer_armed d (((\<lambda>st. settleLast True (queueTick st)) ^^ k) st)
     \<and> delivered folderPath names (j + k) (((\<lambda>st. settleLast True (queueTick st)) ^^ k) st)"
proof (induction k)
  case 0
  with conn armed dl show ?case by simp
next
  case (Suc k)
  let ?sk = "((\<lambda>st. settleLast True (queueTick st)) ^^ k) st"
  from Suc have IH: "connected ?sk" "queue_timer_armed d ?sk"
     "delivered folderPath names (j + k) ?sk" and lt: "j + k < length names"
    by simp_all
  from tick_delivers_next[OF IH lt names] show ?case by simp
qed

lemma find_fresh:
  fixes h :: nat
  assumes "list_all (\<lambda>t. fst t < h) ts"
  shows "find (\<lambda>t. fst t = h) (ts @ [(h, p, cb)]) = Some (h, p, cb)"
  using assms by (induction ts) (auto simp: less_irrefl)

lemma start_hands_over_first:
  assumes conn: "connected s"
    and fresh: "handles_fresh s"
    and none: "inflight s = []"
    and stat: "\<not> list_ex (\<lambda>e. snd e = StatThrows) entries"
    and nm: "names = map fst (filter (\<lambda>e. snd e = IsFile) entries)"
    and ne: "names \<noteq> []"
  shows "fst (startFileQueue (Some entries) folderPath period s) = Queued (length names) period"
    and "connected (snd (startFileQueue (Some entries) folderPath period s))"
    and "queue_timer_armed (effective_delay period)
           (snd (startFileQueue (Some entries) folderPath period s))"
    and "fileQueue (snd (startFileQueue (Some entries) folderPath period s))
           = map (path_join folderPath) (tl names)"
    and "inflight (snd (startFileQueue (Some entries) folderPath period s))
           = [(path_join folderPath (hd names),
               QueueCaption 1 (length names) (basename (path_join folderPath (hd names))),
               True)]"
    and "queueStatus (snd (startFileQueue (Some entries) folderPath period s))
           = \<lparr> active = True, folder = Some folderPath, intervalMs = period,
               totalFiles = length names, sentFiles = 0, sentList = [] \<rparr>"
proof -
  let ?s0 = "case queueInterval s of Some h \<Rightarrow> clearInterval h s | None \<Rightarrow> s"
  let ?files = "map (\<lambda>e. path_join folderPath (fst e)) (filter (\<lambda>e. snd e = IsFile) entries)"
  let ?s1 = "?s0\<lparr> fileQueue := ?files,
                queueStatus := \<lparr> active = True, folder = Some folderPath,
                  intervalMs = period, totalFiles = length ?files, sentFiles = 0,
                  sentList = [] \<rparr> \<rparr>"
  have files: "?files = map (path_join folderPath) names" by (simp add: nm)
  from ne obtain n ns where nn: "names = n # ns" by (cases names) auto
  have c0: "connected ?s0" "nextTimer ?s0 = nextTimer s" "inflight ?s0 = []"
    using conn none by (auto simp: connected_def clearInterval_def split: option.splits)
  have f0: "list_all (\<lambda>t. fst t < nextTimer s) (timers ?s0)"
    using fresh
    by (auto simp: handles_fresh_def clearInterval_def list_all_iff split: option.splits)
  have c1: "connected ?s1" using c0 by (simp add: connected_def)
  have q1: "fileQueue ?s1 = path_join folderPath n # map (path_join folderPath) ns"
    using files nn by simp
  define s2 where "s2 = sendNextQueuedFile ?s1"
  have s2: "s2 = ?s1\<lparr> fileQueue := map (path_join folderPath) ns,
        inflight := [(path_join folderPath n,
               QueueCaption 1 (length names) (basename (path_join folderPath n)), True)] \<rparr>"
    unfolding s2_def using sendNext_shift[OF q1] c1 c0(3) files by simp
  have res: "startFileQueue (Some entries) folderPath period s =
      (Queued (length names) period,
       s2\<lparr> timers := timers s2 @ [(nextTimer s2, effective_delay period, QueueTick)],
           nextTimer := Suc (nextTimer s2), queueInterval := Some (nextTimer s2) \<rparr>)"
    unfolding s2_def using stat files nn by (simp add: startFileQueue_def Let_def setInterval_def)
  have t2: "timers s2 = timers ?s0" "nextTimer s2 = nextTimer s" "connected s2"
    unfolding s2 using c0 by (simp_all add: connected_def)
  have f2: "fileQueue s2 = map (path_join folderPath) (tl names)"
    "inflight s2 = [(path_join folderPath (hd names),
               QueueCaption 1 (length names) (basename (path_join folderPath (hd names))),
               True)]"
    "queueStatus s2 = \<lparr> active = True, folder = Some folderPath, intervalMs = period,
               totalFiles = length names, sentFiles = 0, sentList = [] \<rparr>"
  proof -
    have len: "length (filter (\<lambda>e. snd e = IsFile) entries) = length names"
      unfolding nm by simp
    show "fileQueue s2 = map (path_join folderPath) (tl names)"
      unfolding s2 by (simp add: nn)
    show "inflight s2 = [(path_join folderPath (hd names),
               QueueCaption 1 (length names) (basename (path_join folderPath (hd names))),
               True)]"
      unfolding s2 by (simp add: nn)
    show "queueStatus s2 = \<lparr> active = True, folder = Some folderPath, intervalMs = period,
               totalFiles = length names, sentFiles = 0, sentList = [] \<rparr>"
      unfolding s2 by (simp add: len)
  qed
  have fnd: "find (\<lambda>t. fst t = nextTimer s)
       (timers ?s0 @ [(nextTimer s, effective_delay period, QueueTick)])
      = Some (nextTimer s, effective_delay period, QueueTick)"
    using f0 by (rule find_fresh)
  show "fst (startFileQueue (Some entries) folderPath period s) = Queued (length names) period"
    unfolding res by simp
  show "connected (snd (startFileQueue (Some entries) folderPath period s))"
    unfolding res using t2 by (simp add: connected_def)
  show "queue_timer_armed (effective_delay period)
           (snd (startFileQueue (Some entries) folderPath period s))"
    unfolding res using t2 fnd by (simp add: queue_timer_armed_def)
  show "fileQueue (snd (startFileQueue (Some entries) folderPath period s))
           = map (path_join folderPath) (tl names)"
    unfolding res by (simp add: f2)
  show "inflight (snd (startFileQueue (Some entries) folderPath period s))
           = [(path_join folderPath (hd names),
               QueueCaption 1 (length names) (basename (path_join folderPath (hd names))),
               True)]"
    unfolding res by (simp add: f2)
  show "queueStatus (snd (startFileQueue (Some entries) folderPath period s))
           = \<lparr> active = True, folder = Some folderPath, intervalMs = period,
               totalFiles = length names, sentFiles = 0, sentList = [] \<rparr>"
    unfolding res by (simp add: f2)
qed

text \<open>
  C3, as stated, fails, whatever the order of the listing. \<^verbatim>\<open>startFileQueue\<close> does not wait
  for the send it begins: when it returns, the first file is handed over and its send is
  suspended, nothing is delivered and \<open>sentFiles\<close> is \<open>0\<close>. The first delivery settling
  before the first tick, two ticks leave \<open>sentFiles = 2\<close> with \<open>remaining = 0\<close> while the
  third send is suspended, and \<open>sentFiles = 3\<close> once it has settled. A period of
  \<open>2147484000\<close> ms (\<^verbatim>\<open>/queue <folder> 2147484\<close>) arms a timer of 1 ms.
\<close>

theorem first_file_is_only_handed_over_by_the_start:
  "sentFiles (queueStatus (snd (startFileQueue (Some fixture_listing) ''/fixture'' 1000 ready)))
     = 0
   \<and> sentList (queueStatus (snd (startFileQueue (Some fixture_listing) ''/fixture'' 1000 ready)))
     = []
   \<and> outbox (snd (startFileQueue (Some fixture_listing) ''/fixture'' 1000 ready)) = []
   \<and> map fst (inflight (snd (startFileQueue (Some fixture_listing) ''/fixture'' 1000 ready)))
     = [''/fixture/a.txt'']
   \<and> sentFiles (fst (getQueueStatus (run [ClientReady (Some ''me@lid''),
        Start (Some fixture_listing) ''/fixture'' 1000, Settled 0 True, Tick, Settled 0 True,
        Tick] initial))) = 2
   \<and> fst (snd (getQueueStatus (run [ClientReady (Some ''me@lid''),
        Start (Some fixture_listing) ''/fixture'' 1000, Settled 0 True, Tick, Settled 0 True,
        Tick] initial))) = 0
   \<and> sentFiles (fst (getQueueStatus (run [ClientReady (Some ''me@lid''),
        Start (Some fixture_listing) ''/fixture'' 1000, Settled 0 True, Tick, Settled 0 True,
        Tick, Settled 0 True] initial))) = 3
   \<and> timers (snd (startFileQueue (Some fixture_listing) ''/fixture'' 2147484000 ready))
     = [(0, 1, QueueTick)]"
  by (simp add: eval_defs)

text \<open>
  C3, amended. Let the client be connected, no send be suspended, and the listing of the
  folder hold at least one regular file (no \<^verbatim>\<open>statSync\<close> failing), \<open>names\<close> being the regular
  files in the order of the listing. The start answers with the number of files; the files
  are queued in the order of the listing, joined to the folder; the first one is handed to
  the transport within the start, its send suspended, with nothing counted yet; and the
  timer is armed with the period as Node takes it (the period itself between 1 and
  2147483647 ms). Every send settling as delivered before the next tick, after the first
  delivery and \<open>k\<close> ticks the files delivered are the first \<open>k + 1\<close> names in the order of
  the listing, the status reports \<open>sentFiles = k + 1\<close> and the other names as remaining,
  and the timer is still armed.
\<close>

theorem start_hands_over_in_listing_order:
  assumes "connected s" and "handles_fresh s" and "inflight s = []"
    and "\<not> list_ex (\<lambda>e. snd e = StatThrows) entries"
    and "names = map fst (filter (\<lambda>e. snd e = IsFile) entries)"
    and "names \<noteq> []"
    and "\<forall>n\<in>set names. entry_name n"
    and "k < length names"
  shows "fst (startFileQueue (Some entries) folderPath period s) = Queued (length names) period
    \<and> fileQueue (snd (startFileQueue (Some entries) folderPath period s))
        = map (path_join folderPath) (tl names)
    \<and> inflight (snd (startFileQueue (Some entries) folderPath period s))
        = [(path_join folderPath (hd names), QueueCaption 1 (length names) (hd names), True)]
    \<and> sentFiles (queueStatus (snd (startFileQueue (Some entries) folderPath period s))) = 0
    \<and> sentList (queueStatus (snd (startFileQueue (Some entries) folderPath period s))) = []
    \<and> queue_timer_armed (effective_delay period)
        (snd (startFileQueue (Some entries) folderPath period s))
    \<and> (1 \<le> period \<and> period \<le> 2147483647 \<longrightarrow> effective_delay period = period)
    \<and> sentList (queueStatus (((\<lambda>st. settleLast True (queueTick st)) ^^ k)
          (settleLast True (snd (startFileQueue (Some entries) folderPath period s)))))
        = take (Suc k) names
    \<and> getQueueStatus (((\<lambda>st. settleLast True (queueTick st)) ^^ k)
          (settleLast True (snd (startFileQueue (Some entries) folderPath period s))))
        = (queueStatus (((\<lambda>st. settleLast True (queueTick st)) ^^ k)
             (settleLast True (snd (startFileQueue (Some entries) folderPath period s)))),
           length names - Suc k, drop (Suc k) names)
    \<and> sentFiles (queueStatus (((\<lambda>st. settleLast True (queueTick st)) ^^ k)
          (settleLast True (snd (startFileQueue (Some entries) folderPath period s))))) = Suc k
    \<and> inflight (((\<lambda>st. settleLast True (queueTick st)) ^^ k)
          (settleLast True (snd (startFileQueue (Some entries) folderPath period s)))) = []
    \<and> queue_timer_armed (effective_delay period)
        (((\<lambda>st. settleLast True (queueTick st)) ^^ k)
          (settleLast True (snd (startFileQueue (Some entries) folderPath period s))))"
proof -
  let ?s' = "snd (startFileQueue (Some entries) folderPath period s)"
  let ?d = "effective_delay period"
  note st = start_hands_over_first
    [where folderPath = folderPath and period = period, OF assms(1-6)]
  from assms(6) obtain n ns where nn: "names = n # ns" by (cases names) auto
  from assms(7) nn have en: "entry_name n" by simp
  have bn: "basename (path_join folderPath (hd names)) = hd names"
    using en nn by (simp add: basename_join)
  have infl: "inflight ?s'
      = [(path_join folderPath (hd names), QueueCaption 1 (length names) (hd names), True)]"
    using st(5) bn by simp
  have i: "0 < length (inflight ?s')" and e: "inflight ?s' ! 0
      = (path_join folderPath (hd names), QueueCaption 1 (length names) (hd names), True)"
    using infl by simp_all
  have "settleLast True ?s' = sendSettled 0 True ?s'" using infl by (simp add: settleLast_def)
  also note sendSettled_sent[OF i e]
  finally have first: "settleLast True ?s' =
     ?s'\<lparr> inflight := take 0 (inflight ?s') @ drop (Suc 0) (inflight ?s'),
        queueStatus := (queueStatus ?s')\<lparr> sentFiles := sentFiles (queueStatus ?s') + 1,
                          sentList := sentList (queueStatus ?s') @ [basename (path_join folderPath (hd names))] \<rparr>,
        outbox := outbox ?s' @
          [Media (AsWritten (path_join folderPath (hd names))) (QueueCaption 1 (length names) (hd names)),
           QueueProgress ((queueStatus ?s')\<lparr> sentFiles := sentFiles (queueStatus ?s') + 1,
                          sentList := sentList (queueStatus ?s') @ [basename (path_join folderPath (hd names))] \<rparr>)] \<rparr>" .
  have c1: "connected (settleLast True ?s')"
    unfolding first using st(2) by (simp add: connected_def)
  have a1: "queue_timer_armed ?d (settleLast True ?s')"
    unfolding settleLast_def using st(3) by (simp add: armed_settled)
  have d1: "delivered folderPath names 1 (settleLast True ?s')"
    unfolding first using st(4) st(6) infl bn nn
    by (simp add: delivered_def)
  have "1 + k \<le> length names" using assms(8) by simp
  from ticks_deliver [OF c1 a1 d1 assms(7) this]
  have dk: "delivered folderPath names (Suc k)
        (((\<lambda>st. settleLast True (queueTick st)) ^^ k) (settleLast True ?s'))"
    and ak: "queue_timer_armed ?d
        (((\<lambda>st. settleLast True (queueTick st)) ^^ k) (settleLast True ?s'))"
    by simp_all
  have mb: "map basename (map (path_join folderPath) (drop (Suc k) names)) = drop (Suc k) names"
  proof -
    have "\<And>n. n \<in> set (drop (Suc k) names) \<Longrightarrow> basename (path_join folderPath n) = n"
      using assms(7) by (auto dest: in_set_dropD intro: basename_join)
    then have "map (\<lambda>n. basename (path_join folderPath n)) (drop (Suc k) names)
        = drop (Suc k) names"
      by (simp add: map_idI)
    then show ?thesis by (simp add: comp_def)
  qed
  have ed: "1 \<le> period \<and> period \<le> 2147483647 \<longrightarrow> effective_delay period = period"
    by (simp add: effective_delay_def)
  from dk mb have after: "sentList (queueStatus (((\<lambda>st. settleLast True (queueTick st)) ^^ k)
          (settleLast True ?s'))) = take (Suc k) names
    \<and> getQueueStatus (((\<lambda>st. settleLast True (queueTick st)) ^^ k) (settleLast True ?s'))
        = (queueStatus (((\<lambda>st. settleLast True (queueTick st)) ^^ k) (settleLast True ?s')),
           length names - Suc k, drop (Suc k) names)
    \<and> sentFiles (queueStatus (((\<lambda>st. settleLast True (queueTick st)) ^^ k)
          (settleLast True ?s'))) = Suc k
    \<and> inflight (((\<lambda>st. settleLast True (queueTick st)) ^^ k) (settleLast True ?s')) = []"
    by (simp add: delivered_def getQueueStatus_def)
  have s0: "sentFiles (queueStatus ?s') = 0 \<and> sentList (queueStatus ?s') = []"
    using st(6) by simp
  from st(1) st(4) infl s0 st(3) ed after ak show ?thesis by blast
qed

theorem start_hands_over_in_listing_order_witness:
  "connected ready \<and> handles_fresh ready \<and> inflight ready = []
   \<and> list_all entry_name [''a.txt'', ''b.txt'', ''c.txt'']
   \<and> inflight (snd (startFileQueue (Some fixture_listing) ''/fixture'' 1000 ready))
       = [(''/fixture/a.txt'', QueueCaption 1 3 ''a.txt'', True)]
   \<and> sentFiles (queueStatus (snd (startFileQueue (Some fixture_listing) ''/fixture'' 1000 ready)))
       = 0
   \<and> queue_timer_armed 1000 (snd (startFileQueue (Some fixture_listing) ''/fixture'' 1000 ready))
   \<and> sentList (queueStatus (((\<lambda>st. settleLast True (queueTick st)) ^^ 1)
         (settleLast True (snd (startFileQueue (Some fixture_listing) ''/fixture'' 1000 ready)))))
       = [''a.txt'', ''b.txt'']
   \<and> getQueueStatus (((\<lambda>st. settleLast True (queueTick st)) ^^ 1)
         (settleLast True (snd (startFileQueue (Some fixture_listing) ''/fixture'' 1000 ready))))
       = (queueStatus (((\<lambda>st. settleLast True (queueTick st)) ^^ 1)
           (settleLast True (snd (startFileQueue (Some fixture_listing) ''/fixture'' 1000 ready)))),
          1, [''c.txt''])
   \<and> sentFiles (queueStatus (((\<lambda>st. settleLast True (queueTick st)) ^^ 1)
         (settleLast True (snd (startFileQueue (Some fixture_listing) ''/fixture'' 1000 ready)))))
       = 2"
proof -
  have h: "connected ready" "handles_fresh ready" "inflight ready = []"
    "\<not> list_ex (\<lambda>e. snd e = StatThrows) fixture_listing"
    "[''a.txt'', ''b.txt'', ''c.txt''] = map fst (filter (\<lambda>e. snd e = IsFile) fixture_listing)"
    "[''a.txt'', ''b.txt'', ''c.txt''] \<noteq> []"
    "\<forall>n\<in>set [''a.txt'', ''b.txt'', ''c.txt'']. entry_name n"
    "1 < length [''a.txt'', ''b.txt'', ''c.txt'']"
    by (simp_all add: ready_def initial_def connected_def handles_fresh_def fixture_listing_def
        entry_name_def)
  note t = start_hands_over_in_listing_order
    [where s = ready and entries = fixture_listing and names = "[''a.txt'', ''b.txt'', ''c.txt'']"
       and k = 1 and folderPath = "''/fixture''" and period = 1000, OF h]
  have g: "connected ready \<and> handles_fresh ready \<and> inflight ready = []
      \<and> list_all entry_name [''a.txt'', ''b.txt'', ''c.txt'']"
    using h(1-3) by (simp add: entry_name_def)
  have pj: "path_join ''/fixture'' ''a.txt'' = ''/fixture/a.txt''"
    by (simp add: path_join_def normalize_def norm_step_def Let_def)
  have ed: "effective_delay 1000 = 1000" by (simp add: effective_delay_def)
  from t have "inflight (snd (startFileQueue (Some fixture_listing) ''/fixture'' 1000 ready))
       = [(''/fixture/a.txt'', QueueCaption 1 3 ''a.txt'', True)]
   \<and> sentFiles (queueStatus (snd (startFileQueue (Some fixture_listing) ''/fixture'' 1000 ready)))
       = 0
   \<and> queue_timer_armed 1000 (snd (startFileQueue (Some fixture_listing) ''/fixture'' 1000 ready))
   \<and> sentList (queueStatus (((\<lambda>st. settleLast True (queueTick st)) ^^ 1)
         (settleLast True (snd (startFileQueue (Some fixture_listing) ''/fixture'' 1000 ready)))))
       = [''a.txt'', ''b.txt'']
   \<and> getQueueStatus (((\<lambda>st. settleLast True (queueTick st)) ^^ 1)
         (settleLast True (snd (startFileQueue (Some fixture_listing) ''/fixture'' 1000 ready))))
       = (queueStatus (((\<lambda>st. settleLast True (queueTick st)) ^^ 1)
           (settleLast True (snd (startFileQueue (Some fixture_listing) ''/fixture'' 1000 ready)))),
          1, [''c.txt''])
   \<and> sentFiles (queueStatus (((\<lambda>st. settleLast True (queueTick st)) ^^ 1)
         (settleLast True (snd (startFileQueue (Some fixture_listing) ''/fixture'' 1000 ready)))))
       = 2"
    by (simp add: pj ed)
  with g show ?thesis by blast
qed

text \<open>
  In every state reached from the initial state the handles of the armed timers are below
  the next handle, so a new timer never shares its handle with an armed one.
\<close>

lemma fresh_clear: "handles_fresh s \<Longrightarrow> handles_fresh (clearInterval h s)"
  by (simp add: handles_fresh_def clearInterval_def list_all_iff)

lemma fresh_set: "handles_fresh s \<Longrightarrow> handles_fresh (snd (setInterval cb p s))"
  by (auto simp: handles_fresh_def setInterval_def list_all_iff)

lemma fresh_stop: "handles_fresh s \<Longrightarrow> handles_fresh (stopFileQueue s)"
  by (auto simp: stopFileQueue_def Let_def handles_fresh_def clearInterval_def list_all_iff
      split: option.splits)

lemma fresh_sendNext: "handles_fresh s \<Longrightarrow> handles_fresh (sendNextQueuedFile s)"
proof (cases "fileQueue s")
  case Nil
  assume "handles_fresh s"
  then have "handles_fresh (stopFileQueue s)" by (rule fresh_stop)
  then show ?thesis
    using Nil by (simp add: sendNextQueuedFile_def Let_def sendWhatsAppReply_def emit_def
        handles_fresh_def)
next
  case (Cons p rest)
  assume "handles_fresh s"
  then show ?thesis
    using Cons by (simp add: sendNextQueuedFile_def handles_fresh_def)
qed

lemma fresh_settled: "handles_fresh s \<Longrightarrow> handles_fresh (sendSettled i ok s)"
  by (simp add: handles_fresh_def settled_frame)

lemma fresh_start:
  assumes "handles_fresh s"
  shows "handles_fresh (snd (startFileQueue listing folderPath period s))"
proof -
  let ?s0 = "case queueInterval s of Some h \<Rightarrow> clearInterval h s | None \<Rightarrow> s"
  have f0: "handles_fresh ?s0" using assms by (simp add: fresh_clear split: option.splits)
  have f1: "handles_fresh (?s0\<lparr> fileQueue := q, queueStatus := st \<rparr>)" for q st
    using f0 by (simp add: handles_fresh_def)
  have f2: "handles_fresh (sendNextQueuedFile (?s0\<lparr> fileQueue := q, queueStatus := st \<rparr>))" for q st
    using f1 by (rule fresh_sendNext)
  have f3: "handles_fresh ((snd (setInterval QueueTick period x))\<lparr> queueInterval := hh \<rparr>)"
    if "handles_fresh x" for x hh
    using fresh_set[OF that, of QueueTick period] by (simp add: handles_fresh_def)
  show ?thesis
    using f0 f3[OF f2]
    by (simp add: startFileQueue_def Let_def split_beta split: option.splits)
qed

lemma fresh_apply_op: "handles_fresh s \<Longrightarrow> handles_fresh (apply_op op s)"
proof (cases op)
  case (Start listing folderPath period)
  assume "handles_fresh s"
  with Start show ?thesis by (simp add: fresh_start)
next
  case Tick
  assume f: "handles_fresh s"
  then have a: "handles_fresh (sendNextQueuedFile s)" by (rule fresh_sendNext)
  from f have b: "handles_fresh (emit TypingSignal s)" by (simp add: emit_def handles_fresh_def)
  from Tick f a b show ?thesis
    by (simp add: queueTick_def fire_def split: option.splits callback.splits)
next
  case (Settled i ok)
  assume "handles_fresh s"
  with Settled show ?thesis by (simp add: fresh_settled)
next
  case Stop
  assume "handles_fresh s"
  with Stop show ?thesis by (simp add: fresh_stop)
next
  case (ClientReady found)
  assume "handles_fresh s"
  with ClientReady show ?thesis by (simp add: handles_fresh_def)
next
  case (SelfChatSeen chat)
  assume "handles_fresh s"
  with SelfChatSeen show ?thesis by (simp add: handles_fresh_def)
next
  case ClientDisconnected
  assume "handles_fresh s"
  with ClientDisconnected show ?thesis by (simp add: handles_fresh_def)
qed

lemma handles_fresh_run: "handles_fresh (run ops initial)"
proof -
  have "handles_fresh s \<Longrightarrow> handles_fresh (foldl (\<lambda>st op. apply_op op st) s ops)" for s
    by (induction ops arbitrary: s) (simp_all add: fresh_apply_op)
  moreover have "handles_fresh initial" by (simp add: handles_fresh_def initial_def)
  ultimately show ?thesis by (simp add: run_def)
qed


section \<open>Classification of the backend's outcome\<close>

lemma url_at_Some:
  assumes "url_at t = Some u"
  shows "\<exists>b. t = u @ b \<and> prefix ''https://'' u \<and> 8 < length u
           \<and> list_all url_char (drop 8 u) \<and> (b = [] \<or> (\<exists>c cs. b = c # cs \<and> (is_space c \<or> c = CHR '']'')))"
proof -
  let ?rest = "drop 8 t"
  from assms have p: "prefix ''https://'' t" and ne: "takeWhile url_char ?rest \<noteq> []"
    and u: "u = ''https://'' @ takeWhile url_char ?rest"
    by (auto simp: url_at_def split: if_splits)
  from p have t: "t = ''https://'' @ ?rest" by (auto simp: prefix_def)
  have "?rest = takeWhile url_char ?rest @ dropWhile url_char ?rest" by simp
  with t u have split: "t = u @ dropWhile url_char ?rest" by (metis append.assoc)
  have all: "list_all url_char (drop 8 u)"
    unfolding u by (simp add: list_all_iff) (auto dest: set_takeWhileD)
  have stop: "dropWhile url_char ?rest = [] \<or>
      (\<exists>c cs. dropWhile url_char ?rest = c # cs \<and> (is_space c \<or> c = CHR '']''))"
  proof (cases "dropWhile url_char ?rest")
    case Nil
    then show ?thesis by simp
  next
    case (Cons c cs)
    then have "dropWhile url_char ?rest \<noteq> []" by simp
    then have "\<not> url_char (hd (dropWhile url_char ?rest))" by (rule hd_dropWhile)
    with Cons show ?thesis by (auto simp: url_char_def)
  qed
  from ne have len: "8 < length u" unfolding u by (cases "takeWhile url_char ?rest") auto
  have pre: "prefix ''https://'' u" unfolding u by simp
  from split pre len all stop show ?thesis by blast
qed

lemma authUrl_Some:
  "authUrl s = Some u \<Longrightarrow>
     \<exists>a b. s = a @ u @ b \<and> prefix ''https://'' u \<and> 8 < length u
        \<and> list_all url_char (drop 8 u)
        \<and> (b = [] \<or> (\<exists>c cs. b = c # cs \<and> (is_space c \<or> c = CHR '']'')))
        \<and> (\<forall>k<length a. url_at (drop k s) = None)"
proof (induction s)
  case Nil
  then show ?case by simp
next
  case (Cons c cs)
  show ?case
  proof (cases "url_at (c # cs)")
    case None
    with Cons.prems have "authUrl cs = Some u" by simp
    from Cons.IH[OF this] obtain a b where
      cs: "cs = a @ u @ b" and u: "prefix ''https://'' u" "8 < length u" "list_all url_char (drop 8 u)"
        "b = [] \<or> (\<exists>c cs. b = c # cs \<and> (is_space c \<or> c = CHR '']''))"
      and first: "\<forall>k<length a. url_at (drop k cs) = None" by blast
    have "\<forall>k<length (c # a). url_at (drop k (c # cs)) = None"
    proof (intro allI impI)
      fix k assume "k < length (c # a)"
      then show "url_at (drop k (c # cs)) = None" using None first by (cases k) auto
    qed
    moreover have "c # cs = (c # a) @ u @ b" using cs by simp
    ultimately show ?thesis using u by blast
  next
    case (Some v)
    with Cons.prems have "v = u" by simp
    with Some have "url_at (c # cs) = Some u" by simp
    from url_at_Some[OF this] obtain b where "c # cs = [] @ u @ b" "prefix ''https://'' u" "8 < length u"
      "list_all url_char (drop 8 u)" "b = [] \<or> (\<exists>c cs. b = c # cs \<and> (is_space c \<or> c = CHR '']''))"
      by auto
    moreover have "\<forall>k<length ([]::string). url_at (drop k (c # cs)) = None" by simp
    ultimately show ?thesis by blast
  qed
qed

lemma url_at_Nil [simp]: "url_at [] = None"
  by (simp add: url_at_def)

lemma authUrl_None:
  "authUrl s = None \<Longrightarrow> url_at (drop k s) = None"
proof (induction s arbitrary: k)
  case Nil
  show ?case by simp
next
  case (Cons c cs)
  then have h: "url_at (c # cs) = None" and t: "authUrl cs = None"
    by (auto split: option.splits)
  show ?case using h Cons.IH[OF t] by (cases k) auto
qed

lemma trim_Nil [simp]: "trim [] = []"
  by (simp add: trim_def)

lemma authMarker_Nil [simp]: "\<not> authMarker []"
  by (simp add: authMarker_def)

lemma claudeResponse_cases:
  "claudeResponse r =
     (if trim (stdout r) \<noteq> [] then trim (stdout r)
      else if authMarker (stderr r)
        then ''Please authorize Claude first: '' @
             (case authUrl (stderr r) of Some u \<Rightarrow> u | None \<Rightarrow> ''Check terminal for auth URL'')
      else if trim (stderr r) \<noteq> [] then ''Claude: '' @ trim (stderr r)
      else (case procError r of Some msg \<Rightarrow> ''Claude error: '' @ msg
            | None \<Rightarrow> ''No response from Claude''))"
proof -
  have a: "(stdout r \<noteq> [] \<and> trim (stdout r) \<noteq> []) = (trim (stdout r) \<noteq> [])" by auto
  have b: "(stderr r \<noteq> [] \<and> authMarker (stderr r)) = authMarker (stderr r)" by auto
  have c: "(stderr r \<noteq> [] \<and> trim (stderr r) \<noteq> []) = (trim (stderr r) \<noteq> [])" by auto
  show ?thesis unfolding claudeResponse_def a b c ..
qed

text \<open>
  C4. Standard output that is not empty but blank is not a success: the callback tests
  the trimmed text, and here falls through to the last case.
\<close>

theorem blank_stdout_is_not_a_success:
  "claudeResponse \<lparr> procError = None, stdout = '' '', stderr = [] \<rparr> = ''No response from Claude''"
  by (simp add: claudeResponse_def trim_def is_space_def authMarker_def)

text \<open>
  C4, as amended. The reply of the batch backend is chosen in this order, on the trimmed
  texts: (1) standard output that is not blank gives its trimmed text; (2) otherwise a
  standard error holding \<^verbatim>\<open>authorize\<close> or \<^verbatim>\<open>login\<close> gives the authorisation message, with
  the first URL of the standard error (the leftmost \<^verbatim>\<open>https://\<close> followed by at least one
  code unit that is neither white space nor \<^verbatim>\<open>]\<close>, taken up to the next such code unit),
  or with the generic instruction when the standard error holds no URL; (3) otherwise a
  standard error that is not blank gives its trimmed text behind \<^verbatim>\<open>Claude: \<close>;
  (4) otherwise a process error gives its message behind \<^verbatim>\<open>Claude error: \<close>;
  (5) otherwise the reply is \<^verbatim>\<open>No response from Claude\<close>.
\<close>

theorem claude_outcome_precedence:
  "(trim (stdout r) \<noteq> [] \<longrightarrow> claudeResponse r = trim (stdout r))
   \<and> (trim (stdout r) = [] \<and> authMarker (stderr r) \<longrightarrow>
        (\<forall>u. authUrl (stderr r) = Some u \<longrightarrow>
           claudeResponse r = ''Please authorize Claude first: '' @ u
           \<and> (\<exists>a b. stderr r = a @ u @ b \<and> prefix ''https://'' u \<and> 8 < length u
                \<and> list_all url_char (drop 8 u)
                \<and> (b = [] \<or> (\<exists>c cs. b = c # cs \<and> (is_space c \<or> c = CHR '']'')))
                \<and> (\<forall>k<length a. url_at (drop k (stderr r)) = None)))
        \<and> (authUrl (stderr r) = None \<longrightarrow>
           claudeResponse r = ''Please authorize Claude first: Check terminal for auth URL''
           \<and> (\<forall>k. url_at (drop k (stderr r)) = None)))
   \<and> (trim (stdout r) = [] \<and> \<not> authMarker (stderr r) \<and> trim (stderr r) \<noteq> [] \<longrightarrow>
        claudeResponse r = ''Claude: '' @ trim (stderr r))
   \<and> (trim (stdout r) = [] \<and> \<not> authMarker (stderr r) \<and> trim (stderr r) = [] \<longrightarrow>
        (\<forall>msg. procError r = Some msg \<longrightarrow> claudeResponse r = ''Claude error: '' @ msg)
        \<and> (procError r = None \<longrightarrow> claudeResponse r = ''No response from Claude''))"
  using authUrl_Some[of "stderr r"] authUrl_None[of "stderr r"]
  by (simp add: claudeResponse_cases)

theorem claude_outcome_precedence_witness:
  "claudeResponse \<lparr> procError = None, stdout = ''hello'' @ newline, stderr = [] \<rparr> = ''hello''
   \<and> claudeResponse \<lparr> procError = None, stdout = [],
         stderr = ''Please login at https://auth.example/x?y] now'' \<rparr>
       = ''Please authorize Claude first: https://auth.example/x?y''
   \<and> claudeResponse \<lparr> procError = None, stdout = [], stderr = ''authorize in the browser'' \<rparr>
       = ''Please authorize Claude first: Check terminal for auth URL''
   \<and> claudeResponse \<lparr> procError = Some ''exit 1'', stdout = '' '', stderr = ''boom'' @ newline \<rparr>
       = ''Claude: boom''
   \<and> claudeResponse \<lparr> procError = Some ''spawn ENOENT'', stdout = [], stderr = [] \<rparr>
       = ''Claude error: spawn ENOENT''
   \<and> claudeResponse \<lparr> procError = None, stdout = [], stderr = [] \<rparr>
       = ''No response from Claude''"
  using claude_outcome_precedence [of "\<lparr> procError = None, stdout = ''hello'' @ newline, stderr = [] \<rparr>"]
    claude_outcome_precedence [of "\<lparr> procError = None, stdout = [],
         stderr = ''Please login at https://auth.example/x?y] now'' \<rparr>"]
    claude_outcome_precedence [of "\<lparr> procError = None, stdout = [], stderr = ''authorize in the browser'' \<rparr>"]
    claude_outcome_precedence [of "\<lparr> procError = Some ''exit 1'', stdout = '' '', stderr = ''boom'' @ newline \<rparr>"]
    claude_outcome_precedence [of "\<lparr> procError = Some ''spawn ENOENT'', stdout = [], stderr = [] \<rparr>"]
    claude_outcome_precedence [of "\<lparr> procError = None, stdout = [], stderr = [] \<rparr>"]
  by (simp add: trim_def is_space_def newline_def authMarker_def url_at_def url_char_def)


section \<open>The typing heartbeat\<close>

lemma stopTyping_clears: "typingInterval (stopTyping s) = None"
  by (simp add: stopTyping_def clearInterval_def split: option.splits)

lemma stopTyping_not_running: "typingInterval s = None \<Longrightarrow> stopTyping s = s"
  by (simp add: stopTyping_def)

lemma stopTyping_idempotent: "stopTyping (stopTyping s) = stopTyping s"
  by (rule stopTyping_not_running) (rule stopTyping_clears)

lemma stopTyping_cancels:
  "typingInterval s = Some h \<Longrightarrow> find (\<lambda>t. fst t = h) (timers (stopTyping s)) = None"
  by (simp add: stopTyping_def clearInterval_def find_None_iff)

text \<open>
  C7. \<^verbatim>\<open>startTyping\<close> has no guard for a heartbeat that is already running: a second start
  arms a second timer and overwrites the handle, so two heartbeat timers are armed at
  once. \<^verbatim>\<open>stopTyping\<close> then clears the second timer only; the first stays armed, no later
  stop reaches it, and it goes on emitting the typing signal.
\<close>

theorem second_start_leaks_a_timer:
  "timers (startTyping True (startTyping True ready))
     = [(0, 5000, TypingTick), (1, 5000, TypingTick)]
   \<and> typingInterval (startTyping True (startTyping True ready)) = Some 1
   \<and> timers (stopTyping (startTyping True (startTyping True ready))) = [(0, 5000, TypingTick)]
   \<and> typingInterval (stopTyping (startTyping True (startTyping True ready))) = None
   \<and> timers (stopTyping (stopTyping (startTyping True (startTyping True ready))))
       = [(0, 5000, TypingTick)]
   \<and> outbox (fire 0 True (stopTyping (startTyping True (startTyping True ready))))
       = [TypingSignal, TypingSignal, TypingSignal]"
  by (simp add: startTyping_def stopTyping_def setInterval_def effective_delay_def
      clearInterval_def emit_def connected_def ready_def initial_def fire_def Let_def)


section \<open>Routing\<close>

text \<open>
  C9. A message whose text is exactly \<^verbatim>\<open>/queue-status\<close> and that carries media is not
  given to the queue command: the commands are read only when no media is attached.
\<close>

theorem captioned_media_is_not_a_queue_command:
  "classify \<lparr> body = ''/queue-status'', hasMedia = True, mediaLoaded = True \<rparr> = MediaPrompt"
  by (simp add: classify_def)

text \<open>
  C9, as amended. A self-chat message without media whose trimmed text is, in any case of
  the letters, \<^verbatim>\<open>/queue-status\<close> (or \<^verbatim>\<open>/queue-stop\<close>) takes the branch of that command: not
  the free-form prompt, and not the \<^verbatim>\<open>/queue <folder>\<close> branch.
\<close>

theorem queue_commands_are_dispatched:
  assumes "\<not> hasMedia m"
  shows "(toLowerCase (trim (body m)) = ''/queue-status'' \<longrightarrow> classify m = QueueStatus)
    \<and> (toLowerCase (trim (body m)) = ''/queue-stop'' \<longrightarrow> classify m = QueueStop)"
proof -
  have ne: "trim (body m) \<noteq> [] \<Longrightarrow> body m \<noteq> []" by auto
  have a: "classify m = QueueStatus" if h: "toLowerCase (trim (body m)) = ''/queue-status''"
  proof -
    from h have "trim (body m) \<noteq> []" by (auto simp: toLowerCase_def)
    with ne assms h show ?thesis by (simp add: classify_def Let_def)
  qed
  have b: "classify m = QueueStop" if h: "toLowerCase (trim (body m)) = ''/queue-stop''"
  proof -
    from h have "trim (body m) \<noteq> []" by (auto simp: toLowerCase_def)
    with ne assms h show ?thesis by (simp add: classify_def Let_def)
  qed
  from a b show ?thesis by blast
qed

theorem queue_commands_are_dispatched_witness:
  "\<not> hasMedia \<lparr> body = ''  /Queue-STATUS '', hasMedia = False, mediaLoaded = False \<rparr>
   \<and> toLowerCase (trim (body \<lparr> body = ''  /Queue-STATUS '', hasMedia = False, mediaLoaded = False \<rparr>))
       = ''/queue-status''
   \<and> classify \<lparr> body = ''  /Queue-STATUS '', hasMedia = False, mediaLoaded = False \<rparr> = QueueStatus
   \<and> toLowerCase (trim (body \<lparr> body = ''/queue-stop'', hasMedia = False, mediaLoaded = False \<rparr>))
       = ''/queue-stop''
   \<and> classify \<lparr> body = ''/queue-stop'', hasMedia = False, mediaLoaded = False \<rparr> = QueueStop"
proof -
  have l1: "toLowerCase (trim ''  /Queue-STATUS '') = ''/queue-status''"
    by (simp add: toLowerCase_def lower_char_def is_upper_def trim_def is_space_def)
  have l2: "toLowerCase (trim ''/queue-stop'') = ''/queue-stop''"
    by (simp add: toLowerCase_def lower_char_def is_upper_def trim_def is_space_def)
  from queue_commands_are_dispatched
      [of "\<lparr> body = ''  /Queue-STATUS '', hasMedia = False, mediaLoaded = False \<rparr>"]
    queue_commands_are_dispatched
      [of "\<lparr> body = ''/queue-stop'', hasMedia = False, mediaLoaded = False \<rparr>"]
    l1 l2
  show ?thesis by simp
qed

section \<open>The directive: matching\<close>

lemma directive_at_Some:
  assumes "directive_at t = Some (g, r)"
  shows "t = tag_open @ g @ CHR '']'' # r \<and> g \<noteq> [] \<and> CHR '']'' \<notin> set g"
proof -
  let ?body = "drop (length tag_open) t"
  let ?P = "\<lambda>c. c \<noteq> CHR '']''"
  from assms have pre: "prefix tag_open t" and g: "g = takeWhile ?P ?body"
    and r: "r = tl (dropWhile ?P ?body)" and ne: "g \<noteq> []" and dne: "dropWhile ?P ?body \<noteq> []"
    by (auto simp: directive_at_def Let_def split: if_splits)
  from pre have t: "t = tag_open @ ?body" by (auto simp: prefix_def)
  from dne have "\<not> ?P (hd (dropWhile ?P ?body))" by (rule hd_dropWhile)
  with dne r have d: "dropWhile ?P ?body = CHR '']'' # r" by (cases "dropWhile ?P ?body") auto
  have "?body = takeWhile ?P ?body @ dropWhile ?P ?body" by simp
  with g d have b: "?body = g @ CHR '']'' # r" by simp
  have "CHR '']'' \<notin> set g" unfolding g by (auto dest: set_takeWhileD)
  with t b ne show ?thesis by simp
qed

lemma directive_at_intro:
  assumes "g \<noteq> []" and "CHR '']'' \<notin> set g"
  shows "directive_at (tag_open @ g @ CHR '']'' # r) = Some (g, r)"
proof -
  let ?P = "\<lambda>c. c \<noteq> CHR '']''"
  have all: "\<And>x. x \<in> set g \<Longrightarrow> ?P x" using assms(2) by auto
  have tw: "takeWhile ?P (g @ CHR '']'' # r) = g"
    using all by (simp add: takeWhile_append2)
  have dw: "dropWhile ?P (g @ CHR '']'' # r) = CHR '']'' # r"
    using all by (simp add: dropWhile_append2)
  show ?thesis using assms(1) by (simp add: directive_at_def Let_def tw dw)
qed

lemma directive_at_Nil [simp]: "directive_at [] = None"
  by (simp add: directive_at_def tag_open_def)

lemma directive_at_not_bracket:
  "c \<noteq> CHR ''['' \<Longrightarrow> directive_at (c # cs) = None"
  by (simp add: directive_at_def tag_open_def)

lemma sendFileMatch_Some:
  "sendFileMatch s = Some g \<Longrightarrow>
     \<exists>pre post. s = pre @ tag_open @ g @ CHR '']'' # post \<and> g \<noteq> [] \<and> CHR '']'' \<notin> set g
        \<and> (\<forall>k<length pre. directive_at (drop k s) = None)"
proof (induction s)
  case Nil
  then show ?case by simp
next
  case (Cons c cs)
  show ?case
  proof (cases "directive_at (c # cs)")
    case None
    with Cons.prems have "sendFileMatch cs = Some g" by simp
    from Cons.IH[OF this] obtain pre post where
      cs: "cs = pre @ tag_open @ g @ CHR '']'' # post" and g: "g \<noteq> []" "CHR '']'' \<notin> set g"
      and first: "\<forall>k<length pre. directive_at (drop k cs) = None" by blast
    have "\<forall>k<length (c # pre). directive_at (drop k (c # cs)) = None"
    proof (intro allI impI)
      fix k assume "k < length (c # pre)"
      then show "directive_at (drop k (c # cs)) = None"
        using None first by (cases k) auto
    qed
    moreover have "c # cs = (c # pre) @ tag_open @ g @ CHR '']'' # post" using cs by simp
    ultimately show ?thesis using g by blast
  next
    case (Some m)
    with Cons.prems have "fst m = g" by simp
    with Some have "directive_at (c # cs) = Some (g, snd m)" by (cases m) simp
    from directive_at_Some[OF this]
    have "c # cs = [] @ tag_open @ g @ CHR '']'' # snd m \<and> g \<noteq> [] \<and> CHR '']'' \<notin> set g
        \<and> (\<forall>k<length ([]::string). directive_at (drop k (c # cs)) = None)" by simp
    then show ?thesis by blast
  qed
qed

lemma sendFileMatch_None_iff:
  "sendFileMatch s = None \<longleftrightarrow> (\<forall>k. directive_at (drop k s) = None)"
proof (induction s)
  case Nil
  show ?case by simp
next
  case (Cons c cs)
  show ?case
  proof
    assume a: "sendFileMatch (c # cs) = None"
    then have h: "directive_at (c # cs) = None" and t: "sendFileMatch cs = None"
      by (auto split: option.splits)
    show "\<forall>k. directive_at (drop k (c # cs)) = None"
    proof
      fix k show "directive_at (drop k (c # cs)) = None"
        using h t Cons.IH by (cases k) auto
    qed
  next
    assume a: "\<forall>k. directive_at (drop k (c # cs)) = None"
    then have "directive_at (drop 0 (c # cs)) = None" by blast
    then have h: "directive_at (c # cs) = None" by simp
    have "\<forall>k. directive_at (drop k cs) = None"
    proof
      fix k from a have "directive_at (drop (Suc k) (c # cs)) = None" by blast
      then show "directive_at (drop k cs) = None" by simp
    qed
    with Cons.IH h show "sendFileMatch (c # cs) = None" by simp
  qed
qed

lemma sendFileMatch_finds:
  assumes "p \<noteq> []" and "CHR '']'' \<notin> set p"
  shows "sendFileMatch (a @ tag_open @ p @ CHR '']'' # b) \<noteq> None"
proof
  assume "sendFileMatch (a @ tag_open @ p @ CHR '']'' # b) = None"
  then have "directive_at (drop (length a) (a @ tag_open @ p @ CHR '']'' # b)) = None"
    unfolding sendFileMatch_None_iff by blast
  then show False using directive_at_intro[OF assms] by simp
qed

section \<open>The directive: stripping\<close>

lemma space_not_bracket: "is_space c \<Longrightarrow> c \<noteq> CHR ''[''"
  by (auto simp: is_space_def)

lemma directive_at_space: "is_space c \<Longrightarrow> directive_at (c # cs) = None"
  by (simp add: directive_at_not_bracket space_not_bracket)

lemma replaceTags_Nil [simp]: "replaceTags [] = []"
  by (simp add: replaceTags.simps)

lemma replaceTags_keep:
  assumes "directive_at (dropWhile is_space (c # cs)) = None"
  shows "replaceTags (c # cs) = c # replaceTags cs"
  using assms by (subst replaceTags.simps) simp

lemma replaceTags_cut:
  assumes "directive_at (dropWhile is_space s) = Some m"
  shows "replaceTags s = CHR '' '' # replaceTags (dropWhile is_space (snd m))"
  using assms by (subst replaceTags.simps) simp

lemma set_replaceTags: "set (replaceTags s) \<subseteq> insert (CHR '' '') (set s)"
proof (induction s rule: replaceTags.induct)
  case (1 s)
  show ?case
  proof (cases "directive_at (dropWhile is_space s)")
    case (Some m)
    obtain g r where m: "m = (g, r)" by (cases m)
    from Some m have "dropWhile is_space s = tag_open @ g @ CHR '']'' # r"
      using directive_at_Some by blast
    then have "set r \<subseteq> set (dropWhile is_space s)" by auto
    also have "\<dots> \<subseteq> set s" by (auto dest: set_dropWhileD)
    finally have r: "set (snd m) \<subseteq> set s" using m by simp
    have "set (dropWhile is_space (snd m)) \<subseteq> set (snd m)" by (auto dest: set_dropWhileD)
    with r "1.IH"(2)[OF Some] have "set (replaceTags (dropWhile is_space (snd m))) \<subseteq> insert (CHR '' '') (set s)"
      by blast
    then show ?thesis by (simp add: replaceTags_cut[OF Some])
  next
    case None
    show ?thesis
    proof (cases s)
      case Nil
      then show ?thesis by simp
    next
      case (Cons c cs)
      with None have "replaceTags s = c # replaceTags cs" by (simp add: replaceTags_keep)
      moreover from "1.IH"(1)[OF None Cons] have "set (replaceTags cs) \<subseteq> insert (CHR '' '') (set cs)" .
      ultimately show ?thesis using Cons by auto
    qed
  qed
qed

lemma replaceTags_prefix:
  "CHR '' '' \<notin> set w \<Longrightarrow> prefix w (replaceTags s) \<Longrightarrow>
     \<exists>u. s = w @ u \<and> replaceTags s = w @ replaceTags u"
proof (induction w arbitrary: s)
  case Nil
  then show ?case by simp
next
  case (Cons x w)
  from Cons.prems obtain rest where out: "replaceTags s = x # rest" and pw: "prefix w rest"
    by (auto simp: prefix_def)
  from Cons.prems have x: "x \<noteq> CHR '' ''" by auto
  show ?case
  proof (cases "directive_at (dropWhile is_space s)")
    case (Some m)
    from replaceTags_cut[OF Some] out x show ?thesis by simp
  next
    case None
    show ?thesis
    proof (cases s)
      case Nil
      with out show ?thesis by simp
    next
      case (Cons c cs)
      with None have k: "replaceTags s = c # replaceTags cs" by (simp add: replaceTags_keep)
      with out have c: "c = x" and r: "rest = replaceTags cs" by simp_all
      from Cons.prems(1) have "CHR '' '' \<notin> set w" by simp
      from Cons.IH[OF this, of cs] pw r obtain u where "cs = w @ u" "replaceTags cs = w @ replaceTags u"
        by blast
      with k c Cons show ?thesis by simp
    qed
  qed
qed

lemma tag_open_no_blank: "CHR '' '' \<notin> set tag_open"
  by (simp add: tag_open_def)

lemma directive_at_None_cases:
  assumes "directive_at (tag_open @ u) = None"
  shows "takeWhile (\<lambda>c. c \<noteq> CHR '']'') u = [] \<or> dropWhile (\<lambda>c. c \<noteq> CHR '']'') u = []"
  using assms by (auto simp: directive_at_def Let_def split: if_splits)

lemma directive_at_tag:
  "directive_at (tag_open @ u) =
     (if takeWhile (\<lambda>c. c \<noteq> CHR '']'') u \<noteq> [] \<and> dropWhile (\<lambda>c. c \<noteq> CHR '']'') u \<noteq> []
      then Some (takeWhile (\<lambda>c. c \<noteq> CHR '']'') u, tl (dropWhile (\<lambda>c. c \<noteq> CHR '']'') u))
      else None)"
  by (simp add: directive_at_def Let_def)

lemma keep_no_directive:
  assumes none: "directive_at (dropWhile is_space (c # cs)) = None"
  shows "directive_at (c # replaceTags cs) = None"
proof (cases "prefix tag_open (c # replaceTags cs)")
  case False
  then show ?thesis by (simp add: directive_at_def)
next
  case True
  have k: "replaceTags (c # cs) = c # replaceTags cs" using none by (rule replaceTags_keep)
  with True have "prefix tag_open (replaceTags (c # cs))" by simp
  from replaceTags_prefix[OF tag_open_no_blank this] obtain u
    where s: "c # cs = tag_open @ u" and o: "replaceTags (c # cs) = tag_open @ replaceTags u"
    by blast
  from s have "c = CHR ''[''" by (simp add: tag_open_def)
  then have "\<not> is_space c" by (auto simp: is_space_def)
  then have "dropWhile is_space (c # cs) = c # cs" by simp
  with none have "directive_at (c # cs) = None" by simp
  then have "directive_at (tag_open @ u) = None" unfolding s .
  then consider (nopath) "takeWhile (\<lambda>c. c \<noteq> CHR '']'') u = []"
    | (unclosed) "dropWhile (\<lambda>c. c \<noteq> CHR '']'') u = []"
    using directive_at_None_cases by blast
  then have "directive_at (tag_open @ replaceTags u) = None"
  proof cases
    case nopath
    show ?thesis
    proof (cases u)
      case Nil
      have "directive_at (tag_open @ []) = None" by (simp only: directive_at_tag) simp
      with Nil show ?thesis by simp
    next
      case (Cons d ds)
      with nopath have d: "d = CHR '']''" by (simp split: if_splits)
      then have "\<not> is_space d" by (auto simp: is_space_def)
      moreover have "directive_at (d # ds) = None" using d by (simp add: directive_at_not_bracket)
      ultimately have "replaceTags (d # ds) = d # replaceTags ds"
        by (simp add: replaceTags_keep)
      with Cons d show ?thesis by (simp add: directive_at_tag)
    qed
  next
    case unclosed
    then have "CHR '']'' \<notin> set u" by auto
    with set_replaceTags[of u] have "CHR '']'' \<notin> set (replaceTags u)" by auto
    then have "dropWhile (\<lambda>c. c \<noteq> CHR '']'') (replaceTags u) = []"
      by auto
    then show ?thesis by (simp add: directive_at_tag)
  qed
  with k o show ?thesis by simp
qed

lemma replaceTags_no_directive:
  "sendFileMatch (replaceTags s) = None"
proof (induction s rule: replaceTags.induct)
  case (1 s)
  show ?case
  proof (cases "directive_at (dropWhile is_space s)")
    case (Some m)
    from "1.IH"(2)[OF Some] show ?thesis
      by (simp add: replaceTags_cut[OF Some] directive_at_not_bracket)
  next
    case None
    show ?thesis
    proof (cases s)
      case Nil
      then show ?thesis by simp
    next
      case (Cons c cs)
      from None Cons have "directive_at (c # replaceTags cs) = None"
        by (simp add: keep_no_directive)
      moreover from None Cons have "replaceTags s = c # replaceTags cs"
        by (simp add: replaceTags_keep)
      ultimately show ?thesis using "1.IH"(1)[OF None Cons] by simp
    qed
  qed
qed

lemma directive_at_append:
  assumes "directive_at t = Some m"
  shows "directive_at (t @ u) \<noteq> None"
proof -
  obtain g r where m: "m = (g, r)" by (cases m)
  from assms m have "t = tag_open @ g @ CHR '']'' # r" "g \<noteq> []" "CHR '']'' \<notin> set g"
    using directive_at_Some by blast+
  then have "t @ u = tag_open @ g @ CHR '']'' # (r @ u)" by simp
  with directive_at_intro[of g "r @ u"] \<open>g \<noteq> []\<close> \<open>CHR '']'' \<notin> set g\<close>
  show ?thesis by simp
qed

lemma no_directive_drop:
  "sendFileMatch x = None \<Longrightarrow> sendFileMatch (drop n x) = None"
  unfolding sendFileMatch_None_iff by simp

lemma no_directive_take:
  assumes "sendFileMatch x = None"
  shows "sendFileMatch (take n x) = None"
  unfolding sendFileMatch_None_iff
proof
  fix k
  show "directive_at (drop k (take n x)) = None"
  proof (rule ccontr)
    assume "directive_at (drop k (take n x)) \<noteq> None"
    then obtain m where "directive_at (drop k (take n x)) = Some m" by auto
    then have "directive_at (drop k (take n x) @ drop n x) \<noteq> None" by (rule directive_at_append)
    moreover have "drop k (take n x) @ drop n x = drop k x"
    proof (cases "k \<le> length (take n x)")
      case True
      have "drop k (take n x @ drop n x)
          = drop k (take n x) @ drop (k - length (take n x)) (drop n x)"
        by (rule drop_append)
      with True have "drop k (take n x @ drop n x) = drop k (take n x) @ drop n x"
        by (simp del: append_take_drop_id length_take)
      then show ?thesis by simp
    next
      case False
      then have "length (take n x) \<le> k" by linarith
      then have "drop k (take n x) = []" by (rule drop_all)
      with \<open>directive_at (drop k (take n x)) = Some m\<close> have False by simp
      then show ?thesis ..
    qed
    ultimately have "directive_at (drop k x) \<noteq> None" by simp
    moreover from assms have "directive_at (drop k x) = None"
      by (simp add: sendFileMatch_None_iff)
    ultimately show False by simp
  qed
qed

lemma trim_as_take_drop:
  "\<exists>i j. trim x = take i (drop j x)"
proof -
  have d: "dropWhile is_space x = drop (length (takeWhile is_space x)) x"
    by (rule dropWhile_eq_drop)
  let ?y = "dropWhile is_space x"
  have "rev (dropWhile is_space (rev ?y)) = rev (drop (length (takeWhile is_space (rev ?y))) (rev ?y))"
    by (simp add: dropWhile_eq_drop)
  also have "\<dots> = take (length ?y - length (takeWhile is_space (rev ?y))) ?y"
    by (simp add: rev_drop)
  finally have "trim x = take (length ?y - length (takeWhile is_space (rev ?y))) (drop (length (takeWhile is_space x)) x)"
    using d by (simp add: trim_def)
  then show ?thesis by blast
qed

lemma no_directive_trim:
  assumes "sendFileMatch x = None"
  shows "sendFileMatch (trim x) = None"
proof -
  obtain i j where "trim x = take i (drop j x)" using trim_as_take_drop by blast
  with assms show ?thesis by (simp add: no_directive_drop no_directive_take)
qed

lemma stripTags_no_directive: "sendFileMatch (stripTags reply) = None"
  unfolding stripTags_def by (rule no_directive_trim) (rule replaceTags_no_directive)

lemma filter_dropWhile_space:
  "filter (\<lambda>c. \<not> is_space c) (dropWhile is_space x) = filter (\<lambda>c. \<not> is_space c) x"
  by (induction x) auto

lemma filter_trim:
  "filter (\<lambda>c. \<not> is_space c) (trim x) = filter (\<lambda>c. \<not> is_space c) x"
proof -
  have "filter (\<lambda>c. \<not> is_space c) (trim x)
      = rev (filter (\<lambda>c. \<not> is_space c) (dropWhile is_space (rev (dropWhile is_space x))))"
    by (simp add: trim_def rev_filter)
  also have "\<dots> = rev (filter (\<lambda>c. \<not> is_space c) (rev (dropWhile is_space x)))"
    by (simp only: filter_dropWhile_space)
  also have "\<dots> = filter (\<lambda>c. \<not> is_space c) (dropWhile is_space x)"
    by (simp add: rev_filter)
  finally show ?thesis by (simp only: filter_dropWhile_space)
qed

lemma spec_without_Nil [simp]: "spec_without_directives [] = []"
  by (simp add: spec_without_directives.simps)

lemma spec_without_keep:
  "directive_at (c # cs) = None \<Longrightarrow>
     spec_without_directives (c # cs) = c # spec_without_directives cs"
  by (subst spec_without_directives.simps) simp

lemma spec_without_cut:
  "directive_at s = Some m \<Longrightarrow> spec_without_directives s = spec_without_directives (snd m)"
  by (subst spec_without_directives.simps) simp

lemma spec_without_skip_space:
  "filter (\<lambda>c. \<not> is_space c) (spec_without_directives (dropWhile is_space s))
     = filter (\<lambda>c. \<not> is_space c) (spec_without_directives s)"
proof (induction s)
  case Nil
  show ?case by simp
next
  case (Cons c cs)
  show ?case
  proof (cases "is_space c")
    case True
    then show ?thesis using Cons by (simp add: spec_without_keep directive_at_space)
  next
    case False
    then show ?thesis by simp
  qed
qed

lemma replaceTags_preserves_text:
  "filter (\<lambda>c. \<not> is_space c) (replaceTags s)
     = filter (\<lambda>c. \<not> is_space c) (spec_without_directives s)"
proof (induction s rule: replaceTags.induct)
  case (1 s)
  let ?ns = "filter (\<lambda>c. \<not> is_space c)"
  show ?case
  proof (cases "directive_at (dropWhile is_space s)")
    case (Some m)
    have "?ns (replaceTags s) = ?ns (replaceTags (dropWhile is_space (snd m)))"
      by (simp add: replaceTags_cut[OF Some] is_space_def)
    also have "\<dots> = ?ns (spec_without_directives (dropWhile is_space (snd m)))"
      using "1.IH"(2)[OF Some] .
    also have "\<dots> = ?ns (spec_without_directives (snd m))"
      by (rule spec_without_skip_space)
    also have "\<dots> = ?ns (spec_without_directives (dropWhile is_space s))"
      by (simp add: spec_without_cut[OF Some])
    also have "\<dots> = ?ns (spec_without_directives s)"
      by (rule spec_without_skip_space)
    finally show ?thesis .
  next
    case None
    show ?thesis
    proof (cases s)
      case Nil
      then show ?thesis by simp
    next
      case (Cons c cs)
      have k: "replaceTags s = c # replaceTags cs" using None Cons by (simp add: replaceTags_keep)
      have "directive_at (c # cs) = None"
      proof (cases "is_space c")
        case True
        then show ?thesis by (rule directive_at_space)
      next
        case False
        with None Cons show ?thesis by simp
      qed
      then have "spec_without_directives s = c # spec_without_directives cs"
        using Cons by (simp add: spec_without_keep)
      with k "1.IH"(1)[OF None Cons] show ?thesis by simp
    qed
  qed
qed

lemma stripTags_preserves_text:
  "filter (\<lambda>c. \<not> is_space c) (stripTags reply)
     = filter (\<lambda>c. \<not> is_space c) (spec_without_directives reply)"
  by (simp add: stripTags_def filter_trim replaceTags_preserves_text)

lemmas str_eval = trim_def is_space_def directive_at_def tag_open_def Let_def

lemma ex_strip: "stripTags ''Done! [SEND_FILE:/tmp/a.png] enjoy'' = ''Done! enjoy''"
  by (simp add: stripTags_def replaceTags.simps str_eval)

lemma ex_match: "sendFileMatch ''Done! [SEND_FILE:/tmp/a.png] enjoy'' = Some ''/tmp/a.png''"
  by (simp add: str_eval)

lemma ex_strip2: "stripTags (''a'' @ newline @ ''[SEND_FILE: /x y.png ]'' @ newline @ newline @ ''b [SEND_FILE:q]'') = ''a b''"
  by (simp add: stripTags_def replaceTags.simps str_eval newline_def)

lemma ex_parse:
  "filePath (parseReply fs ''Done! [SEND_FILE:/tmp/a.png] enjoy'') = Some ''/tmp/a.png''"
  by (simp add: parseReply_def str_eval)

lemma ex_clean:
  "\<not> str_includes (cleanResponse (parseReply fs ''Done! [SEND_FILE:/tmp/a.png] enjoy'')) ''[SEND_FILE:''
   \<and> str_includes (cleanResponse (parseReply fs ''Done! [SEND_FILE:/tmp/a.png] enjoy'')) ''Done!''
   \<and> str_includes (cleanResponse (parseReply fs ''Done! [SEND_FILE:/tmp/a.png] enjoy'')) ''enjoy''"
  by (simp add: parseReply_def ex_strip newline_def str_eval)

lemma parseReply_directive:
  assumes "sendFileMatch reply = Some g"
  shows "filePath (parseReply fs reply) = Some (trim g)"
    and "cleanResponse (parseReply fs reply) =
           (if locate fs (trim g) = None
            then ''File not found: '' @ trim g @ newline @ newline @ stripTags reply
            else stripTags reply)"
    and "fileRef (parseReply fs reply) = locate fs (trim g)"
  using assms by (simp_all add: parseReply_def Let_def)

lemma dropWhile_space_suffix: "\<exists>k. dropWhile is_space t = drop k t"
  using dropWhile_eq_drop by blast

lemma replaceTags_without_directive:
  "sendFileMatch t = None \<Longrightarrow> replaceTags t = t"
proof (induction t)
  case Nil
  show ?case by simp
next
  case (Cons c cs)
  obtain k where k: "dropWhile is_space (c # cs) = drop k (c # cs)"
    using dropWhile_space_suffix by blast
  from Cons.prems have "directive_at (drop k (c # cs)) = None"
    by (simp only: sendFileMatch_None_iff)
  with k have none: "directive_at (dropWhile is_space (c # cs)) = None" by simp
  from Cons.prems have "sendFileMatch cs = None" by (auto split: option.splits)
  with Cons.IH have "replaceTags cs = cs" by simp
  with replaceTags_keep[OF none] show ?case by simp
qed

lemma rstrip_Cons:
  assumes "\<not> is_space c \<or> (\<exists>x\<in>set pre. \<not> is_space x)"
  shows "rev (dropWhile is_space (rev (c # pre))) = c # rev (dropWhile is_space (rev pre))"
proof (cases "\<exists>x\<in>set pre. \<not> is_space x")
  case True
  then have "\<exists>x\<in>set (rev pre). \<not> is_space x" by simp
  then obtain x where "x \<in> set (rev pre)" "\<not> is_space x" by blast
  then have "dropWhile is_space (rev pre @ [c]) = dropWhile is_space (rev pre) @ [c]"
    by (rule dropWhile_append1)
  then show ?thesis by simp
next
  case False
  with assms have c: "\<not> is_space c" by blast
  from False have all: "\<And>x. x \<in> set (rev pre) \<Longrightarrow> is_space x" by auto
  have "dropWhile is_space (rev pre @ [c]) = dropWhile is_space [c]"
    using all by (rule dropWhile_append2)
  moreover have "dropWhile is_space (rev pre) = []" using all by simp
  ultimately show ?thesis using c by simp
qed

lemma rstrip_all_space:
  assumes "\<forall>x\<in>set pre. is_space x"
  shows "rev (dropWhile is_space (rev pre)) = []"
  using assms by simp

lemma replaceTags_first:
  assumes g: "g \<noteq> []" "CHR '']'' \<notin> set g"
  shows "(\<forall>k<length pre. directive_at (drop k (pre @ tag_open @ g @ CHR '']'' # post)) = None)
     \<Longrightarrow> replaceTags (pre @ tag_open @ g @ CHR '']'' # post)
        = rev (dropWhile is_space (rev pre)) @ '' '' @ replaceTags (dropWhile is_space post)"
proof (induction pre)
  case Nil
  have d: "directive_at (tag_open @ g @ CHR '']'' # post) = Some (g, post)"
    using g by (rule directive_at_intro)
  have "dropWhile is_space (tag_open @ g @ CHR '']'' # post) = tag_open @ g @ CHR '']'' # post"
    by (simp add: tag_open_def is_space_def)
  with d have "directive_at (dropWhile is_space ([] @ tag_open @ g @ CHR '']'' # post))
      = Some (g, post)" by simp
  from replaceTags_cut[OF this] show ?case by simp
next
  case (Cons c pre)
  let ?rest = "pre @ tag_open @ g @ CHR '']'' # post"
  let ?D = "tag_open @ g @ CHR '']'' # post"
  have first: "\<forall>k<length pre. directive_at (drop k ?rest) = None"
  proof (intro allI impI)
    fix k assume "k < length pre"
    then have "Suc k < length (c # pre)" by simp
    with Cons.prems have "directive_at (drop (Suc k) ((c # pre) @ ?D)) = None" by blast
    then show "directive_at (drop k ?rest) = None" by simp
  qed
  note IH = Cons.IH[OF first]
  show ?case
  proof (cases "\<forall>x\<in>set (c # pre). is_space x")
    case True
    then have all: "\<And>x. x \<in> set (c # pre) \<Longrightarrow> is_space x" by blast
    have "dropWhile is_space ((c # pre) @ ?D) = dropWhile is_space ?D"
      using all by (rule dropWhile_append2)
    also have "\<dots> = ?D" by (simp add: tag_open_def is_space_def)
    finally have "directive_at (dropWhile is_space ((c # pre) @ ?D)) = Some (g, post)"
      using directive_at_intro[OF g, of post] by simp
    from replaceTags_cut[OF this] have "replaceTags ((c # pre) @ ?D)
        = CHR '' '' # replaceTags (dropWhile is_space post)" by simp
    moreover have "rev (dropWhile is_space (rev (c # pre))) = []"
      using True by (intro rstrip_all_space) 
    ultimately show ?thesis by simp
  next
    case False
    then obtain x where x: "x \<in> set (c # pre)" "\<not> is_space x" by blast
    have "\<exists>j<length (c # pre). dropWhile is_space ((c # pre) @ ?D) = drop j ((c # pre) @ ?D)"
    proof -
      have "takeWhile is_space (c # pre) \<noteq> c # pre"
        using x by (metis takeWhile_eq_all_conv)
      moreover have "length (takeWhile is_space (c # pre)) \<le> length (c # pre)"
        by (rule length_takeWhile_le)
      moreover have "length (takeWhile is_space (c # pre)) = length (c # pre)
          \<Longrightarrow> takeWhile is_space (c # pre) = c # pre"
        by (metis takeWhile_dropWhile_id append_eq_conv_conj take_all_iff order_refl append_Nil2 length_0_conv length_append add_diff_cancel_left' append_self_conv)
      ultimately have "length (takeWhile is_space (c # pre)) < length (c # pre)"
        by (metis le_neq_implies_less)
      moreover have "takeWhile is_space ((c # pre) @ ?D) = takeWhile is_space (c # pre)"
        using x by (intro takeWhile_append1) auto
      then have "dropWhile is_space ((c # pre) @ ?D)
          = drop (length (takeWhile is_space (c # pre))) ((c # pre) @ ?D)"
        by (metis dropWhile_eq_drop)
      ultimately show ?thesis by blast
    qed
    then obtain j where j: "j < length (c # pre)"
      "dropWhile is_space ((c # pre) @ ?D) = drop j ((c # pre) @ ?D)" by blast
    from Cons.prems j(1) have "directive_at (drop j ((c # pre) @ ?D)) = None" by blast
    with j(2) have none: "directive_at (dropWhile is_space (c # ?rest)) = None" by simp
    have keep: "replaceTags (c # ?rest) = c # replaceTags ?rest"
      using none by (rule replaceTags_keep)
    have "\<not> is_space c \<or> (\<exists>x\<in>set pre. \<not> is_space x)" using x by auto
    then have "rev (dropWhile is_space (rev (c # pre)))
        = c # rev (dropWhile is_space (rev pre))" by (rule rstrip_Cons)
    with keep IH show ?thesis by simp
  qed
qed

lemma prefix_cut:
  "prefix w (a @ c # b) \<Longrightarrow> c \<notin> set w \<Longrightarrow> prefix w a"
proof (induction a arbitrary: w)
  case Nil
  then show ?case by (cases w) auto
next
  case (Cons x a)
  then show ?case by (cases w) auto
qed

lemma no_directive_skip:
  "CHR ''['' \<notin> set a \<Longrightarrow> sendFileMatch (a @ b) = sendFileMatch b"
proof (induction a)
  case Nil
  show ?case by simp
next
  case (Cons x a)
  from Cons.prems have "x \<noteq> CHR ''[''" by auto
  then have "directive_at (x # a @ b) = None" by (rule directive_at_not_bracket)
  with Cons show ?case by simp
qed

lemma no_directive_through:
  assumes "\<not> str_includes p tag_open"
  shows "sendFileMatch (p @ CHR 0x0A # b) = sendFileMatch (CHR 0x0A # b)"
  using assms
proof (induction p)
  case Nil
  show ?case by simp
next
  case (Cons x p)
  from Cons.prems have np: "\<not> prefix tag_open (x # p)" and rest: "\<not> str_includes p tag_open"
    by simp_all
  have "directive_at ((x # p) @ CHR 0x0A # b) = None"
  proof (rule ccontr)
    assume "directive_at ((x # p) @ CHR 0x0A # b) \<noteq> None"
    then have "prefix tag_open ((x # p) @ CHR 0x0A # b)"
      by (auto simp: directive_at_def split: if_splits)
    moreover have "CHR 0x0A \<notin> set tag_open" by (simp add: tag_open_def)
    ultimately have "prefix tag_open (x # p)" by (rule prefix_cut)
    with np show False by simp
  qed
  with Cons.IH[OF rest] show ?case by simp
qed

lemma notice_without_directive:
  assumes "\<not> str_includes p tag_open" and "sendFileMatch t = None"
  shows "sendFileMatch (''File not found: '' @ p @ newline @ newline @ t) = None"
proof -
  have "sendFileMatch (''File not found: '' @ p @ newline @ newline @ t)
      = sendFileMatch (p @ CHR 0x0A # CHR 0x0A # t)"
    using no_directive_skip[of "''File not found: ''" "p @ newline @ newline @ t"]
    by (simp add: newline_def)
  also have "\<dots> = sendFileMatch (CHR 0x0A # CHR 0x0A # t)"
    using assms(1) by (rule no_directive_through)
  also have "\<dots> = sendFileMatch t"
    using no_directive_skip[of "[CHR 0x0A, CHR 0x0A]" t] by simp
  finally show ?thesis using assms(2) by simp
qed

lemma no_directive_without_bracket:
  "CHR '']'' \<notin> set t \<Longrightarrow> sendFileMatch t = None"
proof (rule ccontr)
  assume n: "CHR '']'' \<notin> set t" and "sendFileMatch t \<noteq> None"
  then obtain g where "sendFileMatch t = Some g" by auto
  from sendFileMatch_Some[OF this] obtain pre post where
    "t = pre @ tag_open @ g @ CHR '']'' # post" by blast
  then have "CHR '']'' \<in> set t" by simp
  with n show False by simp
qed

lemma str_includes_split:
  "str_includes p w \<Longrightarrow> \<exists>u v. p = u @ w @ v"
proof (induction p)
  case Nil
  then show ?case by simp
next
  case (Cons c cs)
  from Cons.prems have "prefix w (c # cs) \<or> str_includes cs w" by simp
  then show ?case
  proof
    assume "prefix w (c # cs)"
    then obtain v where "c # cs = w @ v" by (auto simp: prefix_def)
    then have "c # cs = [] @ w @ v" by simp
    then show ?thesis by blast
  next
    assume "str_includes cs w"
    with Cons.IH obtain u v where "cs = u @ w @ v" by blast
    then have "c # cs = (c # u) @ w @ v" by simp
    then show ?thesis by blast
  qed
qed

lemma set_trim: "set (trim s) \<subseteq> set s"
proof -
  have "set (trim s) \<subseteq> set (dropWhile is_space s)"
    using set_dropWhileD[of _ is_space "rev (dropWhile is_space s)"]
    by (auto simp: trim_def)
  also have "\<dots> \<subseteq> set s" using set_dropWhileD[of _ is_space s] by auto
  finally show ?thesis .
qed

lemma notice_with_directive:
  assumes inc: "str_includes p tag_open" and p: "CHR '']'' \<notin> set p"
    and t: "CHR '']'' \<in> set t"
  shows "sendFileMatch (''File not found: '' @ p @ newline @ newline @ t) \<noteq> None"
proof -
  from str_includes_split[OF inc] obtain u v where uv: "p = u @ tag_open @ v" by blast
  from split_list_first[OF t] obtain t1 t2 where
    ts: "t = t1 @ CHR '']'' # t2" "CHR '']'' \<notin> set t1" by blast
  let ?g = "v @ newline @ newline @ t1"
  have g: "?g \<noteq> []" "CHR '']'' \<notin> set ?g"
    using p ts(2) uv by (simp_all add: newline_def)
  have "''File not found: '' @ p @ newline @ newline @ t
      = (''File not found: '' @ u) @ tag_open @ ?g @ CHR '']'' # t2"
    using uv ts(1) by simp
  with sendFileMatch_finds[OF g, of "''File not found: '' @ u" t2] show ?thesis by simp
qed

lemma notice_directive_iff:
  assumes p: "CHR '']'' \<notin> set p" and t: "sendFileMatch t = None"
  shows "(sendFileMatch (''File not found: '' @ p @ newline @ newline @ t) = None)
       = (\<not> str_includes p tag_open \<or> CHR '']'' \<notin> set t)"
proof (cases "str_includes p tag_open")
  case False
  with notice_without_directive[OF False t] show ?thesis by simp
next
  case True
  show ?thesis
  proof (cases "CHR '']'' \<in> set t")
    case yes: True
    with notice_with_directive[OF True p yes] True show ?thesis by simp
  next
    case no: False
    have "CHR '']'' \<notin> set (''File not found: '' @ p @ newline @ newline @ t)"
      using p no by (simp add: newline_def)
    then have "sendFileMatch (''File not found: '' @ p @ newline @ newline @ t) = None"
      by (rule no_directive_without_bracket)
    with no show ?thesis by simp
  qed
qed

lemma no_directive_dropWhile:
  assumes "sendFileMatch t = None"
  shows "sendFileMatch (dropWhile is_space t) = None"
proof -
  obtain j where j: "dropWhile is_space t = drop j t"
    using dropWhile_space_suffix by blast
  have "directive_at (drop k (drop j t)) = None" for k
    using assms by (simp add: sendFileMatch_None_iff)
  then show ?thesis unfolding j by (simp only: sendFileMatch_None_iff) simp
qed

lemma ex_nested:
  "sendFileMatch ''[SEND_FILE:[SEND_FILE:x] ok]'' = Some ''[SEND_FILE:x''
   \<and> stripTags ''[SEND_FILE:[SEND_FILE:x] ok]'' = ''ok]''"
  by (simp add: stripTags_def replaceTags.simps str_eval)

text \<open>
  C2, as stated, fails for a reply whose directive names a missing file and holds the
  opening of a directive itself. For the reply \<^verbatim>\<open>[SEND_FILE:[SEND_FILE:x] ok]\<close>, no file
  existing, the path taken is \<^verbatim>\<open>[SEND_FILE:x\<close>, the stripped text is \<^verbatim>\<open>ok]\<close>, and the
  text of the handler, which is sent as the reply, is the notice \<^verbatim>\<open>File not found:\<close> with
  that path in front of the stripped text: the directive pattern matches it again.
\<close>

theorem notice_repeats_the_directive:
  "sendFileMatch ''[SEND_FILE:[SEND_FILE:x] ok]'' = Some ''[SEND_FILE:x''
   \<and> cleanResponse (parseReply no_files ''[SEND_FILE:[SEND_FILE:x] ok]'')
       = ''File not found: [SEND_FILE:x'' @ newline @ newline @ ''ok]''
   \<and> sendFileMatch (cleanResponse (parseReply no_files ''[SEND_FILE:[SEND_FILE:x] ok]''))
       = Some (''x'' @ newline @ newline @ ''ok'')
   \<and> str_includes (cleanResponse (parseReply no_files ''[SEND_FILE:[SEND_FILE:x] ok]''))
       ''[SEND_FILE:''
   \<and> outbox (deliverAIResponse no_files delivers_all ''[SEND_FILE:[SEND_FILE:x] ok]'' ready)
       = [Reply (''File not found: [SEND_FILE:x'' @ newline @ newline @ ''ok]'')]"
proof -
  have c: "cleanResponse (parseReply no_files ''[SEND_FILE:[SEND_FILE:x] ok]'')
       = ''File not found: [SEND_FILE:x'' @ newline @ newline @ ''ok]''"
    and f: "fileRef (parseReply no_files ''[SEND_FILE:[SEND_FILE:x] ok]'') = None"
    using ex_nested
    by (simp_all add: parseReply_def Let_def locate_def no_files_def trim_def is_space_def)
  have m: "sendFileMatch (''File not found: [SEND_FILE:x'' @ newline @ newline @ ''ok]'')
       = Some (''x'' @ newline @ newline @ ''ok'')"
    by (simp add: newline_def str_eval)
  have i: "str_includes (''File not found: [SEND_FILE:x'' @ newline @ newline @ ''ok]'')
       ''[SEND_FILE:''"
    by (simp add: newline_def)
  have d: "outbox (deliverAIResponse no_files delivers_all ''[SEND_FILE:[SEND_FILE:x] ok]'' ready)
       = [Reply (''File not found: [SEND_FILE:x'' @ newline @ newline @ ''ok]'')]"
    by (simp add: deliverAIResponse_def Let_def c f sendWhatsAppReply_def connected_def
        ready_def initial_def emit_def newline_def)
  show ?thesis
    apply (rule conjI, rule ex_nested[THEN conjunct1])
    apply (rule conjI, rule c)
    apply (rule conjI, simp only: c, rule m)
    apply (rule conjI, simp only: c, rule i)
    apply (rule d)
    done
qed

text \<open>
  C2, amended. Let the reply hold at least one directive \<^verbatim>\<open>[SEND_FILE:p]\<close> (\<open>p\<close> not empty,
  without \<^verbatim>\<open>]\<close>). The match succeeds with the group \<open>g\<close> of the first occurrence (no
  directive starts at an earlier position) and the path taken is \<open>g\<close> trimmed. The stripped
  text is, trimmed: what stands in front of the first directive without its trailing white
  space, one space, and the stripping of what follows the directive without its leading
  white space; a text with no directive is left as it is by the stripping, line breaks
  included, so that for a reply with one directive the stripped text is the trimmed
  \<open>pre\<close>, one space, \<open>post\<close>. The stripped text has no occurrence of the directive pattern, and
  holds the code units of the reply with its directives cut out, in the same order, white
  space aside. The text of the handler is the stripped text when the file exists, and the
  notice \<^verbatim>\<open>File not found:\<close> with the path, an empty line and the stripped text when it does
  not; the directive pattern matches the text of the handler exactly when the file does
  not exist, the path holds \<^verbatim>\<open>[SEND_FILE:\<close> and the stripped text holds \<^verbatim>\<open>]\<close>. For the reply
  \<^verbatim>\<open>Done! [SEND_FILE:/tmp/a.png] enjoy\<close> the path is \<^verbatim>\<open>/tmp/a.png\<close>, the stripped text is
  \<^verbatim>\<open>Done! enjoy\<close>, and the text of the handler has no \<^verbatim>\<open>[SEND_FILE:\<close> and still has
  \<^verbatim>\<open>Done!\<close> and \<^verbatim>\<open>enjoy\<close>.
\<close>

theorem directive_is_extracted_and_stripped:
  assumes "reply = a @ tag_open @ p @ CHR '']'' # b" and "p \<noteq> []" and "CHR '']'' \<notin> set p"
  shows "(\<exists>g pre post.
            sendFileMatch reply = Some g
          \<and> reply = pre @ tag_open @ g @ CHR '']'' # post \<and> g \<noteq> [] \<and> CHR '']'' \<notin> set g
          \<and> (\<forall>k<length pre. directive_at (drop k reply) = None)
          \<and> filePath (parseReply fs reply) = Some (trim g)
          \<and> fileRef (parseReply fs reply) = locate fs (trim g)
          \<and> stripTags reply
              = trim (rev (dropWhile is_space (rev pre)) @ '' ''
                      @ replaceTags (dropWhile is_space post))
          \<and> (sendFileMatch post = None \<longrightarrow>
               stripTags reply
                 = trim (rev (dropWhile is_space (rev pre)) @ '' '' @ dropWhile is_space post))
          \<and> cleanResponse (parseReply fs reply) =
               (if fileRef (parseReply fs reply) = None
                then ''File not found: '' @ trim g @ newline @ newline @ stripTags reply
                else stripTags reply)
          \<and> (sendFileMatch (cleanResponse (parseReply fs reply)) = None)
              = (fileRef (parseReply fs reply) \<noteq> None \<or> \<not> str_includes (trim g) tag_open
                 \<or> CHR '']'' \<notin> set (stripTags reply)))
    \<and> (\<forall>t. sendFileMatch t = None \<longrightarrow> replaceTags t = t)
    \<and> sendFileMatch (stripTags reply) = None
    \<and> filter (\<lambda>c. \<not> is_space c) (stripTags reply)
        = filter (\<lambda>c. \<not> is_space c) (spec_without_directives reply)
    \<and> filePath (parseReply fs ''Done! [SEND_FILE:/tmp/a.png] enjoy'') = Some ''/tmp/a.png''
    \<and> stripTags ''Done! [SEND_FILE:/tmp/a.png] enjoy'' = ''Done! enjoy''
    \<and> \<not> str_includes (cleanResponse (parseReply fs ''Done! [SEND_FILE:/tmp/a.png] enjoy''))
          ''[SEND_FILE:''
    \<and> str_includes (cleanResponse (parseReply fs ''Done! [SEND_FILE:/tmp/a.png] enjoy'')) ''Done!''
    \<and> str_includes (cleanResponse (parseReply fs ''Done! [SEND_FILE:/tmp/a.png] enjoy'')) ''enjoy''"
proof -
  from sendFileMatch_finds[OF assms(2,3), of a b] assms(1)
  obtain g where g: "sendFileMatch reply = Some g" by auto
  from sendFileMatch_Some[OF g] obtain pre post where
    occ: "reply = pre @ tag_open @ g @ CHR '']'' # post" "g \<noteq> []" "CHR '']'' \<notin> set g"
      "\<forall>k<length pre. directive_at (drop k reply) = None"
    by blast
  note pr = parseReply_directive[OF g, of fs]
  have nd: "\<forall>k<length pre. directive_at (drop k (pre @ tag_open @ g @ CHR '']'' # post)) = None"
    using occ(4) unfolding occ(1) .
  have "replaceTags (pre @ tag_open @ g @ CHR '']'' # post)
      = rev (dropWhile is_space (rev pre)) @ '' '' @ replaceTags (dropWhile is_space post)"
    using occ(2,3) nd by (rule replaceTags_first)
  then have st: "stripTags reply
      = trim (rev (dropWhile is_space (rev pre)) @ '' '' @ replaceTags (dropWhile is_space post))"
    unfolding stripTags_def occ(1) by simp
  have st1: "stripTags reply
      = trim (rev (dropWhile is_space (rev pre)) @ '' '' @ dropWhile is_space post)"
    if "sendFileMatch post = None"
  proof -
    from that have "sendFileMatch (dropWhile is_space post) = None"
      by (rule no_directive_dropWhile)
    then have "replaceTags (dropWhile is_space post) = dropWhile is_space post"
      by (rule replaceTags_without_directive)
    with st show ?thesis by simp
  qed
  have st1': "sendFileMatch post = None \<longrightarrow>
               stripTags reply
                 = trim (rev (dropWhile is_space (rev pre)) @ '' '' @ dropWhile is_space post)"
    using st1 by (rule impI)
  have cl: "cleanResponse (parseReply fs reply) =
               (if fileRef (parseReply fs reply) = None
                then ''File not found: '' @ trim g @ newline @ newline @ stripTags reply
                else stripTags reply)"
    unfolding pr(2) pr(3) by (rule refl)
  have tg: "CHR '']'' \<notin> set (trim g)" using occ(3) set_trim[of g] by auto
  have again: "(sendFileMatch (cleanResponse (parseReply fs reply)) = None)
      = (fileRef (parseReply fs reply) \<noteq> None \<or> \<not> str_includes (trim g) tag_open
         \<or> CHR '']'' \<notin> set (stripTags reply))"
  proof (cases "fileRef (parseReply fs reply) = None")
    case True
    with cl have "cleanResponse (parseReply fs reply)
        = ''File not found: '' @ trim g @ newline @ newline @ stripTags reply" by simp
    with notice_directive_iff[OF tg stripTags_no_directive, of reply] True
    show ?thesis by simp
  next
    case False
    with cl have "cleanResponse (parseReply fs reply) = stripTags reply" by simp
    with stripTags_no_directive[of reply] False show ?thesis by simp
  qed
  have first: "\<exists>g pre post.
            sendFileMatch reply = Some g
          \<and> reply = pre @ tag_open @ g @ CHR '']'' # post \<and> g \<noteq> [] \<and> CHR '']'' \<notin> set g
          \<and> (\<forall>k<length pre. directive_at (drop k reply) = None)
          \<and> filePath (parseReply fs reply) = Some (trim g)
          \<and> fileRef (parseReply fs reply) = locate fs (trim g)
          \<and> stripTags reply
              = trim (rev (dropWhile is_space (rev pre)) @ '' ''
                      @ replaceTags (dropWhile is_space post))
          \<and> (sendFileMatch post = None \<longrightarrow>
               stripTags reply
                 = trim (rev (dropWhile is_space (rev pre)) @ '' '' @ dropWhile is_space post))
          \<and> cleanResponse (parseReply fs reply) =
               (if fileRef (parseReply fs reply) = None
                then ''File not found: '' @ trim g @ newline @ newline @ stripTags reply
                else stripTags reply)
          \<and> (sendFileMatch (cleanResponse (parseReply fs reply)) = None)
              = (fileRef (parseReply fs reply) \<noteq> None \<or> \<not> str_includes (trim g) tag_open
                 \<or> CHR '']'' \<notin> set (stripTags reply))"
    apply (rule exI[of _ g], rule exI[of _ pre], rule exI[of _ post])
    apply (intro conjI)
              apply (fact g)
             apply (fact occ(1))
            apply (fact occ(2))
           apply (fact occ(3))
          apply (fact occ(4))
         apply (fact pr(1))
        apply (fact pr(3))
       apply (fact st)
      apply (fact st1')
     apply (fact cl)
    apply (fact again)
    done
  have keep: "\<forall>t. sendFileMatch t = None \<longrightarrow> replaceTags t = t"
    by (intro allI impI) (rule replaceTags_without_directive)
  have ex: "filePath (parseReply fs ''Done! [SEND_FILE:/tmp/a.png] enjoy'') = Some ''/tmp/a.png''
    \<and> stripTags ''Done! [SEND_FILE:/tmp/a.png] enjoy'' = ''Done! enjoy''
    \<and> \<not> str_includes (cleanResponse (parseReply fs ''Done! [SEND_FILE:/tmp/a.png] enjoy''))
          ''[SEND_FILE:''
    \<and> str_includes (cleanResponse (parseReply fs ''Done! [SEND_FILE:/tmp/a.png] enjoy'')) ''Done!''
    \<and> str_includes (cleanResponse (parseReply fs ''Done! [SEND_FILE:/tmp/a.png] enjoy'')) ''enjoy''"
    by (intro conjI ex_parse ex_strip ex_clean[THEN conjunct1]
        ex_clean[THEN conjunct2, THEN conjunct1] ex_clean[THEN conjunct2, THEN conjunct2])
  show ?thesis
    apply (rule conjI, rule first)
    apply (rule conjI, rule keep)
    apply (rule conjI, rule stripTags_no_directive)
    apply (rule conjI, rule stripTags_preserves_text)
    apply (rule ex)
    done
qed

theorem directive_is_extracted_and_stripped_witness:
  "''See [SEND_FILE: /tmp/a b.png ] and [SEND_FILE:/tmp/c.png]!''
      = ''See '' @ tag_open @ '' /tmp/a b.png '' @ CHR '']'' # '' and [SEND_FILE:/tmp/c.png]!''
   \<and> sendFileMatch (stripTags ''See [SEND_FILE: /tmp/a b.png ] and [SEND_FILE:/tmp/c.png]!'') = None
   \<and> stripTags ''See [SEND_FILE: /tmp/a b.png ] and [SEND_FILE:/tmp/c.png]!'' = ''See and !''
   \<and> filePath (parseReply \<lparr> existsSync = (\<lambda>p. True), existsNarrow = (\<lambda>p. False) \<rparr>
         ''See [SEND_FILE: /tmp/a b.png ] and [SEND_FILE:/tmp/c.png]!'') = Some ''/tmp/a b.png''
   \<and> replaceTags (''line one'' @ newline @ ''line  two'') = ''line one'' @ newline @ ''line  two''"
proof -
  have h: "''See [SEND_FILE: /tmp/a b.png ] and [SEND_FILE:/tmp/c.png]!''
      = ''See '' @ tag_open @ '' /tmp/a b.png '' @ CHR '']'' # '' and [SEND_FILE:/tmp/c.png]!''"
    "'' /tmp/a b.png '' \<noteq> []" "CHR '']'' \<notin> set '' /tmp/a b.png ''"
    by (simp_all add: tag_open_def)
  note t = directive_is_extracted_and_stripped
    [where reply = "''See [SEND_FILE: /tmp/a b.png ] and [SEND_FILE:/tmp/c.png]!''"
       and a = "''See ''" and p = "'' /tmp/a b.png ''" and b = "'' and [SEND_FILE:/tmp/c.png]!''"
       and fs = "\<lparr> existsSync = (\<lambda>p. True), existsNarrow = (\<lambda>p. False) \<rparr>", OF h]
  note n = t[THEN conjunct2, THEN conjunct2, THEN conjunct1]
  note k = t[THEN conjunct2, THEN conjunct1, rule_format]
  have "sendFileMatch (''line one'' @ newline @ ''line  two'') = None"
    by (simp add: newline_def directive_at_def tag_open_def)
  then have r: "replaceTags (''line one'' @ newline @ ''line  two'')
      = ''line one'' @ newline @ ''line  two''" by (rule k)
  have s: "stripTags ''See [SEND_FILE: /tmp/a b.png ] and [SEND_FILE:/tmp/c.png]!'' = ''See and !''"
    by (simp add: stripTags_def replaceTags.simps str_eval)
  have f: "filePath (parseReply \<lparr> existsSync = (\<lambda>p. True), existsNarrow = (\<lambda>p. False) \<rparr>
         ''See [SEND_FILE: /tmp/a b.png ] and [SEND_FILE:/tmp/c.png]!'') = Some ''/tmp/a b.png''"
    by (simp add: parseReply_def str_eval)
  show ?thesis
    apply (rule conjI, rule h(1))
    apply (rule conjI, rule n)
    apply (rule conjI, rule s)
    apply (rule conjI, rule f)
    apply (rule r)
    done
qed


section \<open>The path heuristic\<close>

lemma parseReply_no_directive:
  assumes "sendFileMatch reply = None"
  shows "cleanResponse (parseReply fs reply) = reply"
    and "filePath (parseReply fs reply) = map_option trim (imagePathMatch reply)"
    and "fileRef (parseReply fs reply) =
           (case imagePathMatch reply of
              Some g \<Rightarrow> if existsSync fs (trim g) then Some (AsWritten (trim g)) else None
            | None \<Rightarrow> None)"
  using assms by (simp_all add: parseReply_def split: option.splits)

lemma deliver_no_directive:
  assumes "sendFileMatch reply = None"
  shows "\<not> connected s \<Longrightarrow> deliverAIResponse fs tr reply s = s"
    and "connected s \<Longrightarrow> fileRef (parseReply fs reply) = None \<Longrightarrow>
           deliverAIResponse fs tr reply s = emit (Reply reply) s"
    and "connected s \<Longrightarrow> fileRef (parseReply fs reply) = Some f \<Longrightarrow> \<not> tr f \<Longrightarrow>
           deliverAIResponse fs tr reply s = emit (Reply reply) s"
    and "connected s \<Longrightarrow> fileRef (parseReply fs reply) = Some f \<Longrightarrow> tr f \<Longrightarrow>
           deliverAIResponse fs tr reply s = emit (Media f (TextCaption (take 200 reply))) s"
proof -
  have c: "cleanResponse (parseReply fs reply) = reply"
    using assms by (rule parseReply_no_directive)
  show "\<not> connected s \<Longrightarrow> deliverAIResponse fs tr reply s = s"
    by (cases "fileRef (parseReply fs reply)")
       (simp_all add: deliverAIResponse_def Let_def c sendWhatsAppReply_def sendWhatsAppMedia_def)
  show "connected s \<Longrightarrow> fileRef (parseReply fs reply) = None \<Longrightarrow>
           deliverAIResponse fs tr reply s = emit (Reply reply) s"
    by (simp add: deliverAIResponse_def Let_def c sendWhatsAppReply_def)
  show "connected s \<Longrightarrow> fileRef (parseReply fs reply) = Some f \<Longrightarrow> \<not> tr f \<Longrightarrow>
           deliverAIResponse fs tr reply s = emit (Reply reply) s"
    by (simp add: deliverAIResponse_def Let_def c sendWhatsAppReply_def sendWhatsAppMedia_def)
  show "connected s \<Longrightarrow> fileRef (parseReply fs reply) = Some f \<Longrightarrow> tr f \<Longrightarrow>
           deliverAIResponse fs tr reply s = emit (Media f (TextCaption (take 200 reply))) s"
    by (simp add: deliverAIResponse_def Let_def c sendWhatsAppReply_def sendWhatsAppMedia_def)
qed

lemmas re_eval = imagePathMatch_def legacy_front_def legacy_group_def users_group_def
  captures_at_def plus_def ascii_lower_def lower_char_def is_upper_def any_char_def sep_char_def
  path_char_def word_char_def is_space_def

lemma ex_heuristic:
  "imagePathMatch ''Saved screenshot: /Users/x/Desktop/shot.png'' = Some ''/Users/x/Desktop/shot.png''"
  by (simp add: re_eval)

lemma ex_no_directive: "sendFileMatch ''Saved screenshot: /Users/x/Desktop/shot.png'' = None"
  by (simp add: directive_at_def tag_open_def)

lemma long_reply_heuristic: "imagePathMatch long_reply = Some ''/Users/x/Desktop/shot.png''"
  by (simp add: long_reply_def re_eval)

lemma long_reply_no_directive: "sendFileMatch long_reply = None"
  by (simp add: long_reply_def directive_at_def tag_open_def)

lemma long_reply_length: "length long_reply = 254"
  by (simp add: long_reply_def)

text \<open>
  C8, as stated, fails for a reply of more than 200 code units in which the heuristic
  finds an existing file: the file goes out with the first 200 code units of the reply as
  its caption, and no text reply follows a file that was sent, so the rest of the reply is
  not sent at all.
\<close>

theorem long_reply_is_cut_in_the_caption:
  "sendFileMatch long_reply = None
   \<and> length long_reply = 254
   \<and> outbox (deliverAIResponse all_files delivers_all long_reply ready)
       = [Media (AsWritten ''/Users/x/Desktop/shot.png'') (TextCaption (take 200 long_reply))]
   \<and> length (take 200 long_reply) = 200
   \<and> take 200 long_reply \<noteq> long_reply"
proof -
  have f: "fileRef (parseReply all_files long_reply) = Some (AsWritten ''/Users/x/Desktop/shot.png'')"
    using parseReply_no_directive(3)[OF long_reply_no_directive, of all_files]
    by (simp add: long_reply_heuristic all_files_def trim_def is_space_def)
  have c: "connected ready" by (simp add: connected_def ready_def initial_def)
  have "deliverAIResponse all_files delivers_all long_reply ready
      = emit (Media (AsWritten ''/Users/x/Desktop/shot.png'') (TextCaption (take 200 long_reply)))
          ready"
    using long_reply_no_directive c f by (rule deliver_no_directive(4)) (simp add: delivers_all_def)
  then have o: "outbox (deliverAIResponse all_files delivers_all long_reply ready)
       = [Media (AsWritten ''/Users/x/Desktop/shot.png'') (TextCaption (take 200 long_reply))]"
    by (simp add: emit_def ready_def initial_def)
  have l: "length (take 200 long_reply) = 200" by (simp add: long_reply_length)
  then have "take 200 long_reply \<noteq> long_reply" using long_reply_length by auto
  then show ?thesis
    using long_reply_no_directive long_reply_length o l by simp
qed

text \<open>
  C8, amended. When the reply holds no directive, the text of the handler is the reply
  itself, whatever the path heuristic finds, and the file taken is the one the heuristic
  names, if it exists. What goes out, the client being connected: the whole reply as a text
  when no file is taken or when the transport refuses the file; and, when the file is
  sent, the file with the first 200 code units of the reply as its caption and no text
  after it. Nothing goes out when the client is not connected. For the reply
  \<^verbatim>\<open>Saved screenshot: /Users/x/Desktop/shot.png\<close> the heuristic gives the path
  \<^verbatim>\<open>/Users/x/Desktop/shot.png\<close> and the text is the reply.
\<close>

theorem heuristic_keeps_the_reply:
  assumes "sendFileMatch reply = None"
  shows "cleanResponse (parseReply fs reply) = reply
    \<and> filePath (parseReply fs reply) = map_option trim (imagePathMatch reply)
    \<and> fileRef (parseReply fs reply) =
         (case imagePathMatch reply of
            Some g \<Rightarrow> if existsSync fs (trim g) then Some (AsWritten (trim g)) else None
          | None \<Rightarrow> None)
    \<and> (\<not> connected s \<longrightarrow> deliverAIResponse fs tr reply s = s)
    \<and> (connected s \<and> fileRef (parseReply fs reply) = None \<longrightarrow>
         deliverAIResponse fs tr reply s = emit (Reply reply) s)
    \<and> (\<forall>f. connected s \<and> fileRef (parseReply fs reply) = Some f \<and> \<not> tr f \<longrightarrow>
         deliverAIResponse fs tr reply s = emit (Reply reply) s)
    \<and> (\<forall>f. connected s \<and> fileRef (parseReply fs reply) = Some f \<and> tr f \<longrightarrow>
         deliverAIResponse fs tr reply s = emit (Media f (TextCaption (take 200 reply))) s)
    \<and> sendFileMatch ''Saved screenshot: /Users/x/Desktop/shot.png'' = None
    \<and> filePath (parseReply fs ''Saved screenshot: /Users/x/Desktop/shot.png'')
        = Some ''/Users/x/Desktop/shot.png''
    \<and> viaHeuristic (parseReply fs ''Saved screenshot: /Users/x/Desktop/shot.png'')
    \<and> cleanResponse (parseReply fs ''Saved screenshot: /Users/x/Desktop/shot.png'')
        = ''Saved screenshot: /Users/x/Desktop/shot.png''"
proof -
  have p: "filePath (parseReply fs ''Saved screenshot: /Users/x/Desktop/shot.png'')
        = Some ''/Users/x/Desktop/shot.png''
      \<and> viaHeuristic (parseReply fs ''Saved screenshot: /Users/x/Desktop/shot.png'')"
    by (simp add: parseReply_def directive_at_def tag_open_def ex_heuristic trim_def is_space_def)
  note a = parseReply_no_directive[OF assms, of fs]
  note d = deliver_no_directive[OF assms, where s = s and fs = fs and tr = tr]
  have d1: "\<not> connected s \<longrightarrow> deliverAIResponse fs tr reply s = s" using d(1) by blast
  have d2: "connected s \<and> fileRef (parseReply fs reply) = None \<longrightarrow>
         deliverAIResponse fs tr reply s = emit (Reply reply) s" using d(2) by blast
  have d3: "\<forall>f. connected s \<and> fileRef (parseReply fs reply) = Some f \<and> \<not> tr f \<longrightarrow>
         deliverAIResponse fs tr reply s = emit (Reply reply) s" using d(3) by blast
  have d4: "\<forall>f. connected s \<and> fileRef (parseReply fs reply) = Some f \<and> tr f \<longrightarrow>
         deliverAIResponse fs tr reply s = emit (Media f (TextCaption (take 200 reply))) s"
    using d(4) by blast
  show ?thesis
    apply (rule conjI, rule a(1))
    apply (rule conjI, rule a(2))
    apply (rule conjI, rule a(3))
    apply (rule conjI, rule d1)
    apply (rule conjI, rule d2)
    apply (rule conjI, rule d3)
    apply (rule conjI, rule d4)
    apply (rule conjI, rule ex_no_directive)
    apply (rule conjI, rule p[THEN conjunct1])
    apply (rule conjI, rule p[THEN conjunct2])
    apply (rule parseReply_no_directive(1)[OF ex_no_directive])
    done
qed

theorem heuristic_keeps_the_reply_witness:
  "sendFileMatch ''Saved screenshot: /Users/x/Desktop/shot.png'' = None
   \<and> cleanResponse (parseReply all_files ''Saved screenshot: /Users/x/Desktop/shot.png'')
       = ''Saved screenshot: /Users/x/Desktop/shot.png''
   \<and> outbox (deliverAIResponse all_files delivers_all
        ''Saved screenshot: /Users/x/Desktop/shot.png'' ready)
       = [Media (AsWritten ''/Users/x/Desktop/shot.png'')
            (TextCaption ''Saved screenshot: /Users/x/Desktop/shot.png'')]
   \<and> outbox (deliverAIResponse no_files delivers_all
        ''Saved screenshot: /Users/x/Desktop/shot.png'' ready)
       = [Reply ''Saved screenshot: /Users/x/Desktop/shot.png'']"
proof -
  have h: "sendFileMatch ''Saved screenshot: /Users/x/Desktop/shot.png'' = None"
    by (rule ex_no_directive)
  have c: "connected ready" by (simp add: connected_def ready_def initial_def)
  note t = heuristic_keeps_the_reply
    [where reply = "''Saved screenshot: /Users/x/Desktop/shot.png''"
       and fs = all_files and tr = delivers_all and s = ready, OF h]
  note u = heuristic_keeps_the_reply
    [where reply = "''Saved screenshot: /Users/x/Desktop/shot.png''"
       and fs = no_files and tr = delivers_all and s = ready, OF h]
  note t1 = t[THEN conjunct1]
  note t3 = t[THEN conjunct2, THEN conjunct2, THEN conjunct1]
  note t7 = t[THEN conjunct2, THEN conjunct2, THEN conjunct2, THEN conjunct2, THEN conjunct2,
      THEN conjunct2, THEN conjunct1, rule_format]
  note u3 = u[THEN conjunct2, THEN conjunct2, THEN conjunct1]
  note u5 = u[THEN conjunct2, THEN conjunct2, THEN conjunct2, THEN conjunct2, THEN conjunct1,
      rule_format]
  have f: "fileRef (parseReply all_files ''Saved screenshot: /Users/x/Desktop/shot.png'')
      = Some (AsWritten ''/Users/x/Desktop/shot.png'')"
    unfolding t3 by (simp add: ex_heuristic all_files_def trim_def is_space_def)
  have g: "fileRef (parseReply no_files ''Saved screenshot: /Users/x/Desktop/shot.png'')
      = None"
    unfolding u3 by (simp add: ex_heuristic no_files_def trim_def is_space_def)
  have tr: "delivers_all (AsWritten ''/Users/x/Desktop/shot.png'')"
    by (simp add: delivers_all_def)
  have "deliverAIResponse all_files delivers_all
        ''Saved screenshot: /Users/x/Desktop/shot.png'' ready
      = emit (Media (AsWritten ''/Users/x/Desktop/shot.png'')
            (TextCaption (take 200 ''Saved screenshot: /Users/x/Desktop/shot.png''))) ready"
    using c f tr by (intro t7 conjI)
  then have d: "outbox (deliverAIResponse all_files delivers_all
        ''Saved screenshot: /Users/x/Desktop/shot.png'' ready)
       = [Media (AsWritten ''/Users/x/Desktop/shot.png'')
            (TextCaption ''Saved screenshot: /Users/x/Desktop/shot.png'')]"
    by (simp add: emit_def ready_def initial_def)
  have "deliverAIResponse no_files delivers_all
        ''Saved screenshot: /Users/x/Desktop/shot.png'' ready
      = emit (Reply ''Saved screenshot: /Users/x/Desktop/shot.png'') ready"
    using c g by (intro u5 conjI)
  then have e: "outbox (deliverAIResponse no_files delivers_all
        ''Saved screenshot: /Users/x/Desktop/shot.png'' ready)
       = [Reply ''Saved screenshot: /Users/x/Desktop/shot.png'']"
    by (simp add: emit_def ready_def initial_def)
  show ?thesis
    apply (rule conjI, rule h)
    apply (rule conjI, rule t1)
    apply (rule conjI, rule d)
    apply (rule e)
    done
qed


section \<open>The direct matchers agree with the patterns\<close>

lemma rests_star_sym: "rests (Star (Sym P)) s = backoffs P s"
  by (induction s) simp_all

lemma hd_backoffs: "hd (backoffs P s) = dropWhile P s"
proof (induction s)
  case Nil
  show ?case by simp
next
  case (Cons c cs)
  have "backoffs P cs \<noteq> []" by (cases cs) auto
  with Cons show ?case by simp
qed

lemma backoffs_not_Nil: "backoffs P s \<noteq> []"
  by (cases s) auto

lemma rests_lit: "rests (lit w) s = (if prefix w s then [drop (length w) s] else [])"
proof (induction w arbitrary: s)
  case Nil
  show ?case by simp
next
  case (Cons c w)
  show ?case by (cases s) (auto simp: Cons)
qed

lemma concat_backoffs_skip:
  assumes "\<And>c cs. P c \<Longrightarrow> f (c # cs) = []"
  shows "concat (map f (backoffs P s)) = f (dropWhile P s)"
  by (induction s) (simp_all add: assms)

lemma rests_sym: "rests (Sym Q) t = (if t \<noteq> [] \<and> Q (hd t) then [tl t] else [])"
  by (cases t) auto

lemma rests_plus_sym:
  "rests (plus (Sym P)) s = (if s \<noteq> [] \<and> P (hd s) then backoffs P (tl s) else [])"
proof (cases s)
  case Nil
  then show ?thesis by (simp add: plus_def)
next
  case (Cons c cs)
  have "rests (plus (Sym P)) (c # cs) = concat (map (rests (Star (Sym P))) (rests (Sym P) (c # cs)))"
    by (simp only: plus_def rests.simps(3))
  also have "\<dots> = (if P c then backoffs P cs else [])"
    by (simp add: rests_sym rests_star_sym del: rests.simps)
  finally show ?thesis using Cons by simp
qed

lemma rests_plus_then:
  assumes "\<And>c. Q c \<Longrightarrow> \<not> P c"
  shows "rests (Cat (plus (Sym P)) (Sym Q)) s =
     (if takeWhile P s \<noteq> [] \<and> dropWhile P s \<noteq> [] \<and> Q (hd (dropWhile P s))
      then [tl (dropWhile P s)] else [])"
proof -
  have skip: "\<And>c cs. P c \<Longrightarrow> rests (Sym Q) (c # cs) = []" using assms by auto
  have cat: "rests (Cat (plus (Sym P)) (Sym Q)) s
      = concat (map (rests (Sym Q)) (rests (plus (Sym P)) s))"
    by (simp only: rests.simps(3))
  show ?thesis
  proof (cases "s \<noteq> [] \<and> P (hd s)")
    case True
    then obtain c cs where s: "s = c # cs" and c: "P c" by (cases s) auto
    have "rests (Cat (plus (Sym P)) (Sym Q)) s = concat (map (rests (Sym Q)) (backoffs P cs))"
      unfolding cat rests_plus_sym using s c by simp
    also have "\<dots> = rests (Sym Q) (dropWhile P cs)"
      using skip by (rule concat_backoffs_skip)
    also have "\<dots> = (if dropWhile P cs \<noteq> [] \<and> Q (hd (dropWhile P cs))
        then [tl (dropWhile P cs)] else [])"
      by (rule rests_sym)
    finally show ?thesis using s c by simp
  next
    case False
    then have "takeWhile P s = []" by (cases s) auto
    moreover have "rests (plus (Sym P)) s = []"
      unfolding rests_plus_sym using False by auto
    then have "rests (Cat (plus (Sym P)) (Sym Q)) s = []"
      unfolding cat by simp
    ultimately show ?thesis by simp
  qed
qed

lemma directive_at_is_regex:
  "rests directive_re s = (case directive_at s of Some m \<Rightarrow> [snd m] | None \<Rightarrow> [])"
proof -
  let ?P = "\<lambda>c. c \<noteq> CHR '']''"
  let ?Q = "\<lambda>c. c = CHR '']''"
  let ?body = "drop (length tag_open) s"
  have inner: "rests (Cat (plus (Sym ?P)) (Sym ?Q)) ?body =
     (if takeWhile ?P ?body \<noteq> [] \<and> dropWhile ?P ?body \<noteq> [] \<and> ?Q (hd (dropWhile ?P ?body))
      then [tl (dropWhile ?P ?body)] else [])"
    by (rule rests_plus_then) simp
  have stop: "dropWhile ?P ?body \<noteq> [] \<Longrightarrow> ?Q (hd (dropWhile ?P ?body))"
    using hd_dropWhile[of ?P ?body] by simp
  have "rests directive_re s =
      concat (map (rests (Cat (plus (Sym ?P)) (Sym ?Q))) (rests (lit tag_open) s))"
    by (simp only: directive_re_def tag_open_def rests.simps(3))
  also have "\<dots> = (if prefix tag_open s then rests (Cat (plus (Sym ?P)) (Sym ?Q)) ?body else [])"
    by (simp add: rests_lit del: rests.simps)
  also have "\<dots> = (case directive_at s of Some m \<Rightarrow> [snd m] | None \<Rightarrow> [])"
  proof (cases "prefix tag_open s")
    case False
    then show ?thesis by (simp add: directive_at_def del: rests.simps)
  next
    case True
    show ?thesis
      unfolding inner using True stop by (simp add: directive_at_def Let_def del: rests.simps)
  qed
  finally show ?thesis .
qed

lemma strip_re_first_match:
  "rests strip_re s =
     (case directive_at (dropWhile is_space s) of
        Some m \<Rightarrow> backoffs is_space (snd m)
      | None \<Rightarrow> [])"
proof -
  let ?X = "Cat directive_re (Star (Sym is_space))"
  have x: "rests ?X t = (case directive_at t of Some m \<Rightarrow> backoffs is_space (snd m) | None \<Rightarrow> [])" for t
  proof -
    have "rests ?X t = concat (map (rests (Star (Sym is_space))) (rests directive_re t))"
      by (simp only: rests.simps(3))
    then show ?thesis
      by (simp add: directive_at_is_regex rests_star_sym del: rests.simps split: option.splits)
  qed
  have skip: "\<And>c cs. is_space c \<Longrightarrow> rests ?X (c # cs) = []"
    unfolding x by (simp add: directive_at_def tag_open_def is_space_def) auto
  have "rests strip_re s = concat (map (rests ?X) (rests (Star (Sym is_space)) s))"
    by (simp only: strip_re_def rests.simps(3))
  also have "\<dots> = concat (map (rests ?X) (backoffs is_space s))"
    by (simp only: rests_star_sym)
  also have "\<dots> = rests ?X (dropWhile is_space s)"
    using skip by (rule concat_backoffs_skip)
  finally show ?thesis unfolding x .
qed

lemma url_at_is_regex:
  "rests url_re s =
     (if prefix ''https://'' s \<and> takeWhile url_char (drop 8 s) \<noteq> []
      then backoffs url_char (tl (drop 8 s)) else [])"
proof -
  have "rests url_re s = concat (map (rests (plus (Sym url_char))) (rests (lit ''https://'') s))"
    by (simp only: url_re_def rests.simps(3))
  also have "\<dots> = (if prefix ''https://'' s
      then rests (plus (Sym url_char)) (drop (length ''https://'') s) else [])"
    by (simp only: rests_lit) simp
  also have "length ''https://'' = 8" by simp
  finally show ?thesis
    by (cases "drop 8 s") (simp_all add: rests_plus_sym del: rests.simps)
qed

lemma url_at_agrees:
  "(url_at s = None \<longrightarrow> rests url_re s = [])
   \<and> (\<forall>u. url_at s = Some u \<longrightarrow> rests url_re s \<noteq> [] \<and> u @ hd (rests url_re s) = s)"
proof (cases "prefix ''https://'' s \<and> takeWhile url_char (drop 8 s) \<noteq> []")
  case False
  then show ?thesis by (auto simp: url_at_is_regex url_at_def)
next
  case True
  then obtain c cs where d: "drop 8 s = c # cs" and c: "url_char c"
    by (cases "drop 8 s") (auto split: if_splits)
  from True have s: "s = ''https://'' @ drop 8 s" by (auto simp: prefix_def)
  have "takeWhile url_char (c # cs) @ dropWhile url_char cs = c # cs"
    using c takeWhile_dropWhile_id[of url_char "c # cs"] by simp
  then have "(''https://'' @ takeWhile url_char (drop 8 s)) @ dropWhile url_char (tl (drop 8 s)) = s"
    using s d by (metis append.assoc list.sel(3))
  with True show ?thesis
    by (simp add: url_at_is_regex url_at_def hd_backoffs backoffs_not_Nil)
qed

end
